theory Spec2Isabelle
  imports Main "HOL-Library.Char_ord" "HOL-Library.List_Lexorder"
begin

section \<open>Python values, exceptions and strings\<close>

text \<open>
  The two scripts \<^verbatim>\<open>sdworx_calendar_merger.py\<close> (the merge variant, suffix \<open>_m\<close>) and
  \<^verbatim>\<open>sdworx_calendar_expender.py\<close> (the expander variant, suffix \<open>_x\<close>) are embedded
  function by function. Where both files hold the same text, one definition serves both.
  Strings are \<^typ>\<open>string\<close>, read as sequences of ASCII characters. An exception is the
  \<open>Inl\<close> branch of a sum.
\<close>

datatype py_error =
  ValueError | KeyError | TypeError | OverflowError | AttributeError | UnboundLocalError

type_synonym 'a res = "py_error + 'a"

definition bnd :: "'a res \<Rightarrow> ('a \<Rightarrow> 'b res) \<Rightarrow> 'b res" where
  "bnd r f = (case r of Inl e \<Rightarrow> Inl e | Inr x \<Rightarrow> f x)"

definition is_digit :: "char \<Rightarrow> bool" where
  "is_digit c = (48 \<le> (of_char c :: nat) \<and> (of_char c :: nat) \<le> 57)"

definition digit_val :: "char \<Rightarrow> nat" where
  "digit_val c = (of_char c :: nat) - 48"

definition digit_char :: "nat \<Rightarrow> char" where
  "digit_char n = ''0123456789'' ! (n mod 10)"

text \<open>\<^verbatim>\<open>int(s)\<close> on a string of ASCII digits (what the regular expressions hand over).\<close>

definition digits_val :: "string \<Rightarrow> nat" where
  "digits_val ds = foldl (\<lambda>a c. 10 * a + digit_val c) 0 ds"

text \<open>\<^verbatim>\<open>str(n)\<close> for a Python int.\<close>

fun show_nat :: "nat \<Rightarrow> string" where
  "show_nat n = (if n < 10 then [digit_char n] else show_nat (n div 10) @ [digit_char (n mod 10)])"

declare show_nat.simps [simp del]

definition py_str :: "int \<Rightarrow> string" where
  "py_str i = (if i < 0 then CHR ''-'' # show_nat (nat (- i)) else show_nat (nat i))"

section \<open>Dates: the part of \<^verbatim>\<open>datetime\<close> the scripts use\<close>

text \<open>
  A \<^verbatim>\<open>datetime\<close> at midnight is its proleptic Gregorian year, month and day. The
  ordinal of a date (\<^verbatim>\<open>toordinal\<close>, day 1 is 0001-01-01) gives weekdays and differences.
\<close>

datatype date = Date (year: nat) (month: nat) (day: nat)

definition is_leap :: "nat \<Rightarrow> bool" where
  "is_leap y = (y mod 4 = 0 \<and> (y mod 100 \<noteq> 0 \<or> y mod 400 = 0))"

definition days_in_month :: "nat \<Rightarrow> nat \<Rightarrow> nat" where
  "days_in_month y m =
     (if m = 2 then (if is_leap y then 29 else 28)
      else if m = 4 \<or> m = 6 \<or> m = 9 \<or> m = 11 then 30 else 31)"

definition days_before_year :: "nat \<Rightarrow> int" where
  "days_before_year y =
     int ((y - 1) * 365) + int ((y - 1) div 4) - int ((y - 1) div 100) + int ((y - 1) div 400)"

definition days_before_month :: "nat \<Rightarrow> nat \<Rightarrow> int" where
  "days_before_month y m = int (sum_list (map (days_in_month y) [1..<m]))"

definition toordinal :: "date \<Rightarrow> int" where
  "toordinal d = days_before_year (year d) + days_before_month (year d) (month d) + int (day d)"

definition valid_date :: "date \<Rightarrow> bool" where
  "valid_date d =
     (1 \<le> year d \<and> year d \<le> 9999 \<and> 1 \<le> month d \<and> month d \<le> 12 \<and>
      1 \<le> day d \<and> day d \<le> days_in_month (year d) (month d))"

text \<open>\<^verbatim>\<open>d + timedelta(days=1)\<close> and \<^verbatim>\<open>d - timedelta(days=1)\<close>; past the last or before
  the first representable day Python raises OverflowError.\<close>

definition date_succ :: "date \<Rightarrow> date" where
  "date_succ d =
     (if day d < days_in_month (year d) (month d) then Date (year d) (month d) (day d + 1)
      else if month d < 12 then Date (year d) (month d + 1) 1
      else Date (year d + 1) 1 1)"

definition date_pred :: "date \<Rightarrow> date" where
  "date_pred d =
     (if 1 < day d then Date (year d) (month d) (day d - 1)
      else if 1 < month d then Date (year d) (month d - 1) (days_in_month (year d) (month d - 1))
      else Date (year d - 1) 12 31)"

definition plus_one_day :: "date \<Rightarrow> date res" where
  "plus_one_day d = (if d = Date 9999 12 31 then Inl OverflowError else Inr (date_succ d))"

definition minus_one_day :: "date \<Rightarrow> date res" where
  "minus_one_day d = (if d = Date 1 1 1 then Inl OverflowError else Inr (date_pred d))"

definition weekday :: "date \<Rightarrow> int" where
  "weekday d = (toordinal d + 6) mod 7"

subsection \<open>\<^verbatim>\<open>strptime\<close> and \<^verbatim>\<open>strftime\<close> with the format \<^verbatim>\<open>%Y%m%d\<close>\<close>

text \<open>
  \<^verbatim>\<open>strptime\<close> turns the format into the regular expression
  \<^verbatim>\<open>(\d\d\d\d)(1[0-2]|0[1-9]|[1-9])(3[0-1]|[1-2]\d|0[1-9]|[1-9]| [1-9])\<close>, matches it at the
  start of the string with backtracking, and raises ValueError when nothing matches, when text
  remains after the match, or when year, month and day are no date. Each directive is a
  function from the text to its matches, in the order the regular expression tries them.
\<close>

type_synonym 'a rx = "string \<Rightarrow> ('a \<times> string) list"

definition is_digit19 :: "char \<Rightarrow> bool" where
  "is_digit19 c = (is_digit c \<and> c \<noteq> CHR ''0'')"

fun re_Y :: "nat rx" where
  "re_Y (a # b # c # d # r) =
     (if is_digit a \<and> is_digit b \<and> is_digit c \<and> is_digit d
      then [(digits_val [a, b, c, d], r)] else [])"
| "re_Y _ = []"

fun re_one :: "(char \<Rightarrow> bool) \<Rightarrow> nat rx" where
  "re_one P (a # r) = (if P a then [(digit_val a, r)] else [])"
| "re_one P [] = []"

fun re_two :: "(char \<Rightarrow> bool) \<Rightarrow> (char \<Rightarrow> bool) \<Rightarrow> nat rx" where
  "re_two P Q (a # b # r) = (if P a \<and> Q b then [(10 * digit_val a + digit_val b, r)] else [])"
| "re_two P Q _ = []"

fun re_sp_one :: "nat rx" where
  "re_sp_one (a # b # r) = (if a = CHR '' '' \<and> is_digit19 b then [(digit_val b, r)] else [])"
| "re_sp_one _ = []"

definition re_m :: "nat rx" where
  "re_m s = re_two (\<lambda>c. c = CHR ''1'') (\<lambda>c. c \<in> set ''012'') s
          @ re_two (\<lambda>c. c = CHR ''0'') is_digit19 s
          @ re_one is_digit19 s"

definition re_d :: "nat rx" where
  "re_d s = re_two (\<lambda>c. c = CHR ''3'') (\<lambda>c. c \<in> set ''01'') s
          @ re_two (\<lambda>c. c \<in> set ''12'') is_digit s
          @ re_two (\<lambda>c. c = CHR ''0'') is_digit19 s
          @ re_one is_digit19 s
          @ re_sp_one s"

definition strptime_ymd :: "string \<Rightarrow> date res" where
  "strptime_ymd s =
     (case [(Date y m d, r3). (y, r1) \<leftarrow> re_Y s, (m, r2) \<leftarrow> re_m r1, (d, r3) \<leftarrow> re_d r2] of
        [] \<Rightarrow> Inl ValueError
      | (dt, r) # _ \<Rightarrow>
          if r \<noteq> [] then Inl ValueError
          else if valid_date dt then Inr dt else Inl ValueError)"

definition pad2 :: "nat \<Rightarrow> string" where
  "pad2 n = [digit_char (n div 10), digit_char n]"

definition pad4 :: "nat \<Rightarrow> string" where
  "pad4 n = [digit_char (n div 1000), digit_char (n div 100), digit_char (n div 10), digit_char n]"

text \<open>\<^verbatim>\<open>strftime("%Y%m%d")\<close>: month and day have two digits; the year is printed by
  the C library as a plain decimal number, with fewer than four digits below year 1000.\<close>

definition strftime_ymd :: "date \<Rightarrow> string" where
  "strftime_ymd d = show_nat (year d) @ pad2 (month d) @ pad2 (day d)"

section \<open>Date helpers of both scripts\<close>

definition str_to_date :: "string \<Rightarrow> date res" where
  "str_to_date v = strptime_ymd v"

definition date_to_str :: "date \<Rightarrow> string" where
  "date_to_str d = strftime_ymd d"

definition date_next_day_str :: "string \<Rightarrow> string res" where
  "date_next_day_str v =
     bnd (str_to_date v) (\<lambda>d. bnd (plus_one_day d) (\<lambda>d'. Inr (date_to_str d')))"

definition date_prev_day_str :: "string \<Rightarrow> string res" where
  "date_prev_day_str v =
     bnd (str_to_date v) (\<lambda>d. bnd (minus_one_day d) (\<lambda>d'. Inr (date_to_str d')))"

definition MONDAY :: int where "MONDAY = 0"
definition FRIDAY :: int where "FRIDAY = 4"

definition get_weekday :: "string \<Rightarrow> int res" where
  "get_weekday v = bnd (str_to_date v) (\<lambda>d. Inr (weekday d))"

definition is_start_week :: "string \<Rightarrow> bool res" where
  "is_start_week v = bnd (get_weekday v) (\<lambda>w. Inr (w = MONDAY \<or> w > FRIDAY))"

definition is_end_week :: "string \<Rightarrow> bool res" where
  "is_end_week v = bnd (get_weekday v) (\<lambda>w. Inr (w \<ge> FRIDAY))"

definition get_diff_date :: "string \<Rightarrow> string \<Rightarrow> int res" where
  "get_diff_date prev_value new_value =
     bnd (str_to_date new_value) (\<lambda>n. bnd (str_to_date prev_value) (\<lambda>p.
       Inr (toordinal n - toordinal p)))"

definition is_less_a_week :: "string \<Rightarrow> string \<Rightarrow> bool res" where
  "is_less_a_week prev_value new_value =
     bnd (get_diff_date prev_value new_value) (\<lambda>g. Inr (g < 7))"

section \<open>Text annotation rules\<close>

definition is_space :: "char \<Rightarrow> bool" where
  "is_space c = (let n = (of_char c :: nat) in (9 \<le> n \<and> n \<le> 13) \<or> (28 \<le> n \<and> n \<le> 32))"

definition rstrip :: "string \<Rightarrow> string" where
  "rstrip s = rev (dropWhile is_space (rev s))"

definition strip :: "string \<Rightarrow> string" where
  "strip s = dropWhile is_space (rstrip s)"

definition is_upper :: "char \<Rightarrow> bool" where
  "is_upper c = (65 \<le> (of_char c :: nat) \<and> (of_char c :: nat) \<le> 90)"

definition is_lower :: "char \<Rightarrow> bool" where
  "is_lower c = (97 \<le> (of_char c :: nat) \<and> (of_char c :: nat) \<le> 122)"

definition to_upper :: "char \<Rightarrow> char" where
  "to_upper c = (if is_lower c then char_of ((of_char c :: nat) - 32) else c)"

definition to_lower :: "char \<Rightarrow> char" where
  "to_lower c = (if is_upper c then char_of ((of_char c :: nat) + 32) else c)"

definition lower :: "string \<Rightarrow> string" where
  "lower s = map to_lower s"

text \<open>\<^verbatim>\<open>str.title()\<close>: a letter that follows a letter is lower-cased, any other letter is
  upper-cased; the flag says whether the character before was a letter.\<close>

fun title_from :: "bool \<Rightarrow> string \<Rightarrow> string" where
  "title_from prev [] = []"
| "title_from prev (c # cs) =
     (if is_lower c then (if prev then c else to_upper c) # title_from True cs
      else if is_upper c then (if prev then to_lower c else c) # title_from True cs
      else c # title_from False cs)"

definition title :: "string \<Rightarrow> string" where
  "title s = title_from False s"

definition sub_prefix :: "string \<Rightarrow> string \<Rightarrow> string \<Rightarrow> string" where
  "sub_prefix p r s = (if take (length p) s = p then r @ drop (length p) s else s)"

definition beautify :: "string \<Rightarrow> string" where
  "beautify v = sub_prefix ''Pm '' ''PM '' (sub_prefix ''Am '' ''AM '' (title v))"

subsection \<open>The duration-tag regular expressions\<close>

text \<open>
  Every tag pattern of the scripts has the shape \<^verbatim>\<open>\([0-9]+[units]\)\<close>, with or without a
  leading blank. \<open>match_tag sp units s\<close> matches it at the start of \<open>s\<close> and returns the
  digits and the text after the match. The digits are taken greedily; since a unit is never
  a digit, backtracking cannot find another match.
\<close>

definition match_tag :: "bool \<Rightarrow> string \<Rightarrow> string \<Rightarrow> (string \<times> string) option" where
  "match_tag sp units s =
     (case (if sp then (case s of [] \<Rightarrow> None | c # r \<Rightarrow> if c = CHR '' '' then Some r else None)
            else Some s) of
        None \<Rightarrow> None
      | Some s1 \<Rightarrow>
          (case s1 of
             [] \<Rightarrow> None
           | c # r \<Rightarrow>
               if c \<noteq> CHR ''('' \<or> takeWhile is_digit r = [] then None
               else (case dropWhile is_digit r of
                       u # c2 # r3 \<Rightarrow>
                         if u \<in> set units \<and> c2 = CHR '')''
                         then Some (takeWhile is_digit r, r3) else None
                     | _ \<Rightarrow> None)))"

text \<open>\<^verbatim>\<open>re.sub(pattern, repl, s)\<close>: every match, leftmost first, not overlapping.\<close>

function re_sub_tag :: "bool \<Rightarrow> string \<Rightarrow> string \<Rightarrow> string \<Rightarrow> string" where
  "re_sub_tag sp units repl [] = []"
| "re_sub_tag sp units repl (c # cs) =
     (case match_tag sp units (c # cs) of
        Some (ds, rest) \<Rightarrow> repl @ re_sub_tag sp units repl rest
      | None \<Rightarrow> c # re_sub_tag sp units repl cs)"
  by pat_completeness auto
termination
proof (relation "measure (\<lambda>(sp, units, repl, s). length s)")
  show "wf (measure (\<lambda>(sp, units, repl, s). length s))" by simp
next
  fix sp units repl c cs x2 ds rest
  assume a: "match_tag sp units (c # cs) = Some x2" "(ds, rest) = x2"
  have key: "length r3 + 2 \<le> length r" if "dropWhile is_digit r = u # c2 # r3" for r u c2 r3
  proof -
    have "length (dropWhile is_digit r) \<le> length r" by (rule length_dropWhile_le)
    with that show ?thesis by simp
  qed
  from a have "length rest < length (c # cs)"
    by (auto simp add: match_tag_def split: if_splits list.splits option.splits dest!: key)
  then show "((sp, units, repl, rest), (sp, units, repl, c # cs)) \<in> measure (\<lambda>(sp, units, repl, s). length s)"
    by simp
next
  fix sp units repl c cs
  show "((sp, units, repl, cs), (sp, units, repl, c # cs)) \<in> measure (\<lambda>(sp, units, repl, s). length s)"
    by simp
qed

text \<open>\<^verbatim>\<open>re.search\<close> (is there a match) and the first group of \<^verbatim>\<open>re.findall\<close>'s
  first match.\<close>

fun re_search_tag :: "bool \<Rightarrow> string \<Rightarrow> string \<Rightarrow> bool" where
  "re_search_tag sp units [] = False"
| "re_search_tag sp units (c # cs) =
     (match_tag sp units (c # cs) \<noteq> None \<or> re_search_tag sp units cs)"

fun re_find_tag :: "bool \<Rightarrow> string \<Rightarrow> string \<Rightarrow> string option" where
  "re_find_tag sp units [] = None"
| "re_find_tag sp units (c # cs) =
     (case match_tag sp units (c # cs) of
        Some (ds, rest) \<Rightarrow> Some ds
      | None \<Rightarrow> re_find_tag sp units cs)"

text \<open>\<^verbatim>\<open>re.search(r'^[AP]M ', s)\<close>.\<close>

definition search_AM_PM :: "string \<Rightarrow> bool" where
  "search_AM_PM s =
     (case s of a # b # c # _ \<Rightarrow> (a = CHR ''A'' \<or> a = CHR ''P'') \<and> b = CHR ''M'' \<and> c = CHR '' ''
      | _ \<Rightarrow> False)"

section \<open>The record model: an event is an \<^verbatim>\<open>OrderedDict\<close>\<close>

text \<open>
  An event maps field names to values in insertion order. Every value read from a file is a
  string; the audit list under \<^verbatim>\<open>__EXTRA__\<close> is the only list. Assigning to a field that is
  present keeps its position, assigning to a new field appends it.
\<close>

datatype fval = S string | L "string list"

type_synonym event = "(string \<times> fval) list"

definition DATE_START :: string where "DATE_START = ''DTSTART''"
definition DATE_END :: string where "DATE_END = ''DTEND''"
definition ORIG_DATE_START :: string where "ORIG_DATE_START = ''ORIG'' @ DATE_START"
definition ORIG_DATE_END :: string where "ORIG_DATE_END = ''ORIG'' @ DATE_END"
definition DESC :: string where "DESC = ''DESCRIPTION''"
definition SUMMARY :: string where "SUMMARY = ''SUMMARY''"
definition EXTRA :: string where "EXTRA = ''__EXTRA__''"
definition END :: string where "END = ''END''"

definition od_in :: "string \<Rightarrow> event \<Rightarrow> bool" where
  "od_in k ev = (map_of ev k \<noteq> None)"

definition od_set :: "string \<Rightarrow> fval \<Rightarrow> event \<Rightarrow> event" where
  "od_set k v ev =
     (if od_in k ev then map (\<lambda>(k', v'). if k' = k then (k', v) else (k', v')) ev
      else ev @ [(k, v)])"

definition od_pop :: "string \<Rightarrow> event \<Rightarrow> event" where
  "od_pop k ev = filter (\<lambda>(k', v'). k' \<noteq> k) ev"

definition move_to_end :: "string \<Rightarrow> event \<Rightarrow> event res" where
  "move_to_end k ev =
     (case map_of ev k of None \<Rightarrow> Inl KeyError | Some v \<Rightarrow> Inr (od_pop k ev @ [(k, v)]))"

definition od_get :: "string \<Rightarrow> event \<Rightarrow> fval res" where
  "od_get k ev = (case map_of ev k of None \<Rightarrow> Inl KeyError | Some v \<Rightarrow> Inr v)"

text \<open>Reading a field where the code needs a string. Only \<^verbatim>\<open>__EXTRA__\<close> ever holds a list,
  and the code reads it in \<open>add_extra\<close> and \<open>print_dict\<close> only, so the TypeError branch is
  there for totality.\<close>

definition od_get_str :: "string \<Rightarrow> event \<Rightarrow> string res" where
  "od_get_str k ev =
     (case map_of ev k of None \<Rightarrow> Inl KeyError | Some (S v) \<Rightarrow> Inr v | Some (L _) \<Rightarrow> Inl TypeError)"

text \<open>\<^verbatim>\<open>event[k] += suffix\<close>.\<close>

definition od_append_str :: "string \<Rightarrow> string \<Rightarrow> event \<Rightarrow> event res" where
  "od_append_str k suffix ev = bnd (od_get_str k ev) (\<lambda>v. Inr (od_set k (S (v @ suffix)) ev))"

section \<open>Functions shared by both scripts\<close>

definition get_date_str :: "event \<Rightarrow> string res" where
  "get_date_str event = od_get_str DATE_START event"

definition get_date_date :: "event \<Rightarrow> date res" where
  "get_date_date event = bnd (get_date_str event) str_to_date"

text \<open>The body of \<open>is_next_date\<close> after its two local variables are set; both scripts
  hold the same text.\<close>

definition is_next_date_of :: "string \<Rightarrow> string \<Rightarrow> bool res" where
  "is_next_date_of prev_date new_date =
     bnd (date_next_day_str prev_date) (\<lambda>nx.
       if nx = new_date then Inr True
       else bnd (is_less_a_week prev_date new_date) (\<lambda>lw.
         if \<not> lw then Inr False
         else bnd (is_end_week prev_date) (\<lambda>ew.
           if \<not> ew then Inr False
           else bnd (is_start_week new_date) (\<lambda>sw.
             if sw then Inr True else Inr False))))"

definition add_extra :: "event \<Rightarrow> string \<Rightarrow> string \<Rightarrow> string \<Rightarrow> event res" where
  "add_extra event desc extra nb =
     (let event1 = (if \<not> od_in EXTRA event then od_set EXTRA (L []) event else event) in
      bnd (od_get EXTRA event1) (\<lambda>x.
        case x of
          S _ \<Rightarrow> Inl AttributeError
        | L xs \<Rightarrow>
            move_to_end END
              (od_set EXTRA (L (xs @ [desc @ '': '' @ extra @ '' ['' @ nb @ '']''])) event1)))"

text \<open>\<^verbatim>\<open>str(list)\<close> of a list of strings: the \<^verbatim>\<open>repr\<close> of each element, for ASCII text.\<close>

definition hex_char :: "nat \<Rightarrow> char" where
  "hex_char n = ''0123456789abcdef'' ! (n mod 16)"

definition repr_char :: "char \<Rightarrow> char \<Rightarrow> string" where
  "repr_char q c =
     (let n = (of_char c :: nat) in
      if c = q \<or> n = 92 then [CHR 0x5C, c]
      else if n = 9 then [CHR 0x5C, CHR ''t'']
      else if n = 10 then [CHR 0x5C, CHR ''n'']
      else if n = 13 then [CHR 0x5C, CHR ''r'']
      else if n < 32 \<or> n = 127 then [CHR 0x5C, CHR ''x'', hex_char (n div 16), hex_char n]
      else [c])"

definition py_repr :: "string \<Rightarrow> string" where
  "py_repr s =
     (let q = (if CHR 0x27 \<in> set s \<and> CHR 0x22 \<notin> set s then CHR 0x22 else CHR 0x27)
      in [q] @ concat (map (repr_char q) s) @ [q])"

fun join :: "string \<Rightarrow> string list \<Rightarrow> string" where
  "join sep [] = []"
| "join sep [x] = x"
| "join sep (x # y # ys) = x @ sep @ join sep (y # ys)"

definition str_list :: "string list \<Rightarrow> string" where
  "str_list xs = ''['' @ join '', '' (map py_repr xs) @ '']''"

definition str_fval :: "fval \<Rightarrow> string" where
  "str_fval v = (case v of S s \<Rightarrow> s | L xs \<Rightarrow> str_list xs)"

text \<open>What the scripts print on standard output, by kind of message. The messages of
  \<open>clean_event\<close>, \<open>print_dict\<close> and the two main passes are kept; those of
  \<open>get_last_date_str\<close>, \<open>get_category\<close> and \<open>print_all\<close> change nothing that is
  computed and are left out.\<close>

datatype log_msg =
    WarnMoreThan9Hours int int
  | WarnOneDayOrMore int int
  | ErrEndNotAtEnd
  | ErrLine string

text \<open>The first part of \<open>print_dict\<close>, the same in both scripts: flatten the audit list
  into the description.\<close>

definition merge_extra :: "event \<Rightarrow> event res" where
  "merge_extra event =
     (if od_in EXTRA event then
        bnd (od_get_str DESC event) (\<lambda>d.
          bnd (od_get EXTRA event) (\<lambda>x.
            Inr (od_pop EXTRA (od_set DESC (S (d @ '': '' @ str_fval x)) event))))
      else Inr event)"

section \<open>The merge variant (\<^verbatim>\<open>sdworx_calendar_merger.py\<close>)\<close>

definition replaced_time_key :: "event \<Rightarrow> int \<Rightarrow> string \<Rightarrow> event res" where
  "replaced_time_key event hours key =
     bnd (od_get_str key event) (\<lambda>v.
       Inr (od_set key (S (re_sub_tag False ''h'' (''('' @ py_str hours @ ''h)'') v)) event))"

definition replace_day_text :: "int \<Rightarrow> string \<Rightarrow> string" where
  "replace_day_text days v =
     (let days_str = '' ('' @ py_str days @ ''d)'' in
      if re_search_tag True ''hd'' v then re_sub_tag True ''hd'' days_str v else v @ days_str)"

definition replace_day_key :: "event \<Rightarrow> int \<Rightarrow> string \<Rightarrow> event res" where
  "replace_day_key event days key =
     bnd (od_get_str key event) (\<lambda>v. Inr (od_set key (S (replace_day_text days v)) event))"

definition get_num_parenthesis :: "string \<Rightarrow> char \<Rightarrow> int" where
  "get_num_parenthesis v key =
     (case re_find_tag False [key] v of
        Some ds \<Rightarrow> max 1 (int (digits_val ds))
      | None \<Rightarrow> 0)"

definition get_hours :: "string \<Rightarrow> int" where
  "get_hours v = get_num_parenthesis v (CHR ''h'')"

definition get_days :: "string \<Rightarrow> int" where
  "get_days v = get_num_parenthesis v (CHR ''d'')"

definition get_last_date_str_m :: "event \<Rightarrow> string res" where
  "get_last_date_str_m event =
     (if od_in DATE_END event then bnd (od_get_str DATE_END event) date_prev_day_str
      else get_date_str event)"

definition get_last_date_after_date :: "event \<Rightarrow> date res" where
  "get_last_date_after_date event =
     bnd (get_last_date_str_m event) (\<lambda>l. bnd (date_next_day_str l) str_to_date)"

definition is_same_date_m :: "event \<Rightarrow> event \<Rightarrow> bool res" where
  "is_same_date_m prev_event new_event =
     bnd (get_last_date_str_m prev_event) (\<lambda>p. bnd (get_date_str new_event) (\<lambda>n. Inr (p = n)))"

definition is_next_date_m :: "event \<Rightarrow> event \<Rightarrow> bool res" where
  "is_next_date_m prev_event new_event =
     bnd (get_last_date_str_m prev_event) (\<lambda>prev_date.
       bnd (get_date_str new_event) (\<lambda>new_date. is_next_date_of prev_date new_date))"

definition get_time_m :: "event \<Rightarrow> int res" where
  "get_time_m event =
     bnd (od_get_str SUMMARY event) (\<lambda>s.
       if get_hours s \<noteq> 0 then Inr (get_hours s)
       else if get_days s \<noteq> 0 then Inr (get_days s * 8)
       else if search_AM_PM s then Inr 4
       else Inr 8)"

definition is_full_day_m :: "event \<Rightarrow> bool res" where
  "is_full_day_m event = bnd (get_time_m event) (\<lambda>t. Inr (t \<ge> 7))"

definition replaced_time_str_m :: "event \<Rightarrow> event \<Rightarrow> (event \<times> int) res" where
  "replaced_time_str_m prev_event new_event =
     bnd (get_time_m new_event) (\<lambda>new_time.
       bnd (get_time_m prev_event) (\<lambda>pt.
         bnd (replaced_time_key prev_event (pt + new_time) SUMMARY) (\<lambda>prev'.
           Inr (prev', new_time))))"

definition replace_day_str_m :: "event \<Rightarrow> event \<Rightarrow> (event \<times> string) res" where
  "replace_day_str_m prev_event new_event =
     bnd (get_last_date_after_date new_event) (\<lambda>a.
       bnd (get_date_date prev_event) (\<lambda>b.
         bnd (replace_day_key prev_event (toordinal a - toordinal b) SUMMARY) (\<lambda>prev'.
           bnd (get_date_str new_event) (\<lambda>d. Inr (prev', d)))))"

definition add_time_m :: "event \<Rightarrow> event \<Rightarrow> event res" where
  "add_time_m prev_event new_event =
     bnd (replaced_time_str_m prev_event new_event) (\<lambda>(prev', hours).
       bnd (od_get_str DESC new_event) (\<lambda>d.
         add_extra prev' ''add time'' d (py_str hours @ ''h'')))"

definition merge_event_m :: "event \<Rightarrow> event \<Rightarrow> event res" where
  "merge_event_m prev_event new_event =
     bnd (od_get DATE_END new_event) (\<lambda>e.
       bnd (replace_day_str_m (od_set DATE_END e prev_event) new_event) (\<lambda>(prev', date).
         bnd (od_get_str DESC new_event) (\<lambda>d.
           add_extra prev' ''add date'' d date)))"

definition get_desc_m :: "event \<Rightarrow> string res" where
  "get_desc_m event = bnd (od_get_str DESC event) (\<lambda>d. Inr (lower (re_sub_tag True ''dh'' [] d)))"

definition is_same_desc_m :: "event \<Rightarrow> event \<Rightarrow> bool res" where
  "is_same_desc_m prev_event new_event =
     bnd (get_desc_m prev_event) (\<lambda>a. bnd (get_desc_m new_event) (\<lambda>b. Inr (a = b)))"

text \<open>One line of the serialization loop of \<open>print_dict\<close>.\<close>

definition line_of_m :: "string \<times> fval \<Rightarrow> string res" where
  "line_of_m kv =
     (case kv of
        (k, S v) \<Rightarrow> Inr (k @ '':'' @ (if k = DESC \<or> k = SUMMARY then beautify v else v))
      | (k, L _) \<Rightarrow> (if k = DESC \<or> k = SUMMARY then Inl AttributeError else Inl TypeError))"

fun res_list :: "'a res list \<Rightarrow> 'a list res" where
  "res_list [] = Inr []"
| "res_list (r # rs) = bnd r (\<lambda>x. bnd (res_list rs) (\<lambda>xs. Inr (x # xs)))"

text \<open>\<open>print_dict\<close> changes the event it is given in place (the audit list is flattened
  into the description) and the caller keeps that object: it returns the event as it has left
  it, the lines written to the output file and the messages printed.
  The accumulator may be \<^verbatim>\<open>None\<close>; then \<^verbatim>\<open>EXTRA in event\<close> raises TypeError.
  \<open>serialized_m\<close> is the event as the loop of \<open>print_dict\<close> walks it.\<close>

definition serialized_m :: "event \<Rightarrow> event res" where
  "serialized_m event = merge_extra event"

definition print_dict_m :: "event option \<Rightarrow> (event \<times> string list \<times> log_msg list) res" where
  "print_dict_m oe =
     (case oe of
        None \<Rightarrow> Inl TypeError
      | Some event \<Rightarrow>
          bnd (serialized_m event) (\<lambda>ev.
            bnd (res_list (map line_of_m ev)) (\<lambda>ls.
              if ev = [] then Inl UnboundLocalError
              else Inr (ev, ls, if fst (last ev) \<noteq> END then [ErrEndNotAtEnd] else []))))"

text \<open>\<open>create_event\<close>: an accumulator that is \<^verbatim>\<open>None\<close> or empty is falsy and is not
  printed. The result is the new accumulator with what was written and printed.\<close>

definition truthy :: "event option \<Rightarrow> bool" where
  "truthy oe = (case oe of None \<Rightarrow> False | Some ev \<Rightarrow> ev \<noteq> [])"

definition create_event_m ::
  "event option \<Rightarrow> event \<Rightarrow> (event \<times> string list \<times> log_msg list) res" where
  "create_event_m prev_event new_event =
     (if truthy prev_event
      then bnd (print_dict_m prev_event) (\<lambda>(ev, ls, lg). Inr (new_event, ls, lg))
      else Inr (new_event, [], []))"

text \<open>The decision taken at \<^verbatim>\<open>END:VEVENT\<close> in the second loop: the new accumulator, the
  lines written and the messages printed.\<close>

definition consolidate_m ::
  "event option \<Rightarrow> event \<Rightarrow> (event \<times> string list \<times> log_msg list) res" where
  "consolidate_m prev_event new_event =
     (case prev_event of
        None \<Rightarrow> create_event_m prev_event new_event
      | Some prev \<Rightarrow>
          if prev = [] then create_event_m prev_event new_event
          else bnd (is_same_desc_m prev new_event) (\<lambda>sd.
            if sd then
              bnd (is_same_date_m prev new_event) (\<lambda>same.
                if same then bnd (add_time_m prev new_event) (\<lambda>p. Inr (p, [], []))
                else bnd (is_full_day_m prev) (\<lambda>fd.
                  if \<not> fd then create_event_m prev_event new_event
                  else bnd (is_next_date_m prev new_event) (\<lambda>nd.
                    if \<not> nd then create_event_m prev_event new_event
                    else bnd (is_full_day_m new_event) (\<lambda>fn.
                      if fn then bnd (merge_event_m prev new_event) (\<lambda>p. Inr (p, [], []))
                      else create_event_m prev_event new_event))))
            else create_event_m prev_event new_event))"

section \<open>The expander variant (\<^verbatim>\<open>sdworx_calendar_expender.py\<close>)\<close>

definition get_last_date_str_x :: "event \<Rightarrow> string res" where
  "get_last_date_str_x event =
     (if od_in DATE_END event then od_get_str DATE_END event else get_date_str event)"

definition is_same_date_x :: "event \<Rightarrow> event \<Rightarrow> bool res" where
  "is_same_date_x prev_event new_event =
     bnd (get_last_date_str_x prev_event) (\<lambda>p. bnd (get_date_str new_event) (\<lambda>n. Inr (p = n)))"

definition is_next_date_x :: "event \<Rightarrow> event \<Rightarrow> bool res" where
  "is_next_date_x prev_event new_event =
     bnd (get_last_date_str_x prev_event) (\<lambda>prev_date.
       bnd (get_date_str new_event) (\<lambda>new_date. is_next_date_of prev_date new_date))"

definition get_time_x :: "event \<Rightarrow> int res" where
  "get_time_x event =
     bnd (od_get_str DESC event) (\<lambda>d.
       case re_find_tag False ''h'' d of
         Some ds \<Rightarrow> Inr (max 1 (int (digits_val ds)))
       | None \<Rightarrow>
          (case re_find_tag False ''d'' d of
             Some ds \<Rightarrow> Inr (int (digits_val ds) * 8)
           | None \<Rightarrow>
               bnd (od_get_str SUMMARY event) (\<lambda>s. if search_AM_PM s then Inr 4 else Inr 8)))"

definition is_full_day_x :: "event \<Rightarrow> bool res" where
  "is_full_day_x event = bnd (get_time_x event) (\<lambda>t. Inr (t \<ge> 7))"

definition replaced_time_str_x :: "event \<Rightarrow> event \<Rightarrow> (event \<times> int) res" where
  "replaced_time_str_x prev_event new_event =
     bnd (get_time_x new_event) (\<lambda>new_time.
       bnd (get_time_x prev_event) (\<lambda>pt.
         bnd (od_get_str SUMMARY prev_event) (\<lambda>v.
           Inr (od_set SUMMARY
                  (S (re_sub_tag False ''h'' (''('' @ py_str (pt + new_time) @ ''h)'') v)) prev_event,
                new_time))))"

definition replace_day_str_x :: "event \<Rightarrow> event \<Rightarrow> (event \<times> string) res" where
  "replace_day_str_x prev_event new_event =
     bnd (get_date_date new_event) (\<lambda>a.
       bnd (get_date_date prev_event) (\<lambda>b.
         bnd (od_get_str SUMMARY prev_event) (\<lambda>v.
           bnd (get_date_str new_event) (\<lambda>d.
             Inr (od_set SUMMARY (S (replace_day_text (toordinal a - toordinal b + 1) v)) prev_event,
                  d)))))"

definition add_time_x :: "event \<Rightarrow> event \<Rightarrow> event res" where
  "add_time_x prev_event new_event =
     bnd (replaced_time_str_x prev_event new_event) (\<lambda>(prev', hours).
       bnd (od_get_str DESC new_event) (\<lambda>d.
         add_extra prev' ''add time'' d (py_str hours @ ''h'')))"

definition merge_event_x :: "event \<Rightarrow> event \<Rightarrow> event res" where
  "merge_event_x prev_event new_event =
     bnd (get_date_str new_event) (\<lambda>e.
       bnd (replace_day_str_x (od_set DATE_END (S e) prev_event) new_event) (\<lambda>(prev', date).
         bnd (od_get_str DESC new_event) (\<lambda>d.
           add_extra prev' ''add date'' d date)))"

definition get_desc_x :: "event \<Rightarrow> string res" where
  "get_desc_x event = bnd (od_get_str DESC event) (\<lambda>d. Inr (re_sub_tag True ''h'' [] d))"

definition is_same_desc_x :: "event \<Rightarrow> event \<Rightarrow> bool res" where
  "is_same_desc_x prev_event new_event =
     bnd (get_desc_x prev_event) (\<lambda>a. bnd (get_desc_x new_event) (\<lambda>b. Inr (a = b)))"

definition line_of_x :: "string \<times> fval \<Rightarrow> string res" where
  "line_of_x kv =
     (case kv of
        (k, S v) \<Rightarrow>
          if k = DATE_END then bnd (date_next_day_str v) (\<lambda>v'. Inr (k @ '':'' @ v'))
          else Inr (k @ '':'' @ (if k = DESC \<or> k = SUMMARY then beautify v else v))
      | (k, L _) \<Rightarrow> (if k = DESC \<or> k = SUMMARY then Inl AttributeError else Inl TypeError))"

definition serialized_x :: "event \<Rightarrow> event res" where
  "serialized_x event =
     bnd (merge_extra event) (\<lambda>ev1.
       if \<not> od_in DATE_END ev1
       then bnd (od_get DATE_START ev1) (\<lambda>s. move_to_end END (od_set DATE_END s ev1))
       else Inr ev1)"

definition print_dict_x :: "event option \<Rightarrow> (event \<times> string list \<times> log_msg list) res" where
  "print_dict_x oe =
     (case oe of
        None \<Rightarrow> Inl TypeError
      | Some event \<Rightarrow>
          bnd (serialized_x event) (\<lambda>ev.
            bnd (res_list (map line_of_x ev)) (\<lambda>ls.
              if ev = [] then Inl UnboundLocalError
              else Inr (ev, ls, if fst (last ev) \<noteq> END then [ErrEndNotAtEnd] else []))))"

definition create_event_x ::
  "event option \<Rightarrow> event \<Rightarrow> (event \<times> string list \<times> log_msg list) res" where
  "create_event_x prev_event new_event =
     (if truthy prev_event
      then bnd (print_dict_x prev_event) (\<lambda>(ev, ls, lg). Inr (new_event, ls, lg))
      else Inr (new_event, [], []))"

definition consolidate_x ::
  "event option \<Rightarrow> event \<Rightarrow> (event \<times> string list \<times> log_msg list) res" where
  "consolidate_x prev_event new_event =
     (case prev_event of
        None \<Rightarrow> create_event_x prev_event new_event
      | Some prev \<Rightarrow>
          if prev = [] then create_event_x prev_event new_event
          else bnd (is_same_desc_x prev new_event) (\<lambda>sd.
            if sd then
              bnd (is_same_date_x prev new_event) (\<lambda>same.
                if same then bnd (add_time_x prev new_event) (\<lambda>p. Inr (p, [], []))
                else bnd (is_full_day_x prev) (\<lambda>fd.
                  if \<not> fd then create_event_x prev_event new_event
                  else bnd (is_next_date_x prev new_event) (\<lambda>nd.
                    if nd then bnd (merge_event_x prev new_event) (\<lambda>p. Inr (p, [], []))
                    else create_event_x prev_event new_event)))
            else create_event_x prev_event new_event))"

section \<open>The normalizer of the merge variant\<close>

text \<open>
  \<open>str_to_date_full\<close> parses \<^verbatim>\<open>%Y%m%dT%H%M%SZ\<close> as UTC and converts to Europe/Brussels.
  The time-zone database is a parameter \<open>zone\<close>: the UTC offset in seconds at a UTC day
  (its ordinal) and second of that day. An exact instant keeps its UTC day, its UTC second
  of the day and the offset found. The format's letters match in either case, since
  \<^verbatim>\<open>strptime\<close> compiles its pattern with \<^verbatim>\<open>IGNORECASE\<close>.
\<close>

record exact_time =
  utc_day :: int
  utc_sec :: int
  utc_off :: int

definition re_H :: "nat rx" where
  "re_H s = re_two (\<lambda>c. c = CHR ''2'') (\<lambda>c. c \<in> set ''0123'') s
          @ re_two (\<lambda>c. c \<in> set ''01'') is_digit s
          @ re_one is_digit s"

definition re_M :: "nat rx" where
  "re_M s = re_two (\<lambda>c. c \<in> set ''012345'') is_digit s @ re_one is_digit s"

definition re_S :: "nat rx" where
  "re_S s = re_two (\<lambda>c. c = CHR ''6'') (\<lambda>c. c \<in> set ''01'') s
          @ re_two (\<lambda>c. c \<in> set ''012345'') is_digit s
          @ re_one is_digit s"

fun re_lit :: "string \<Rightarrow> unit rx" where
  "re_lit cs (a # r) = (if a \<in> set cs then [((), r)] else [])"
| "re_lit cs [] = []"

definition strptime_full :: "string \<Rightarrow> (date \<times> nat \<times> nat \<times> nat) res" where
  "strptime_full s =
     (case [((Date y m d, h, mi, sec), r8).
              (y, r1) \<leftarrow> re_Y s, (m, r2) \<leftarrow> re_m r1, (d, r3) \<leftarrow> re_d r2,
              (t, r4) \<leftarrow> re_lit ''Tt'' r3, (h, r5) \<leftarrow> re_H r4, (mi, r6) \<leftarrow> re_M r5,
              (sec, r7) \<leftarrow> re_S r6, (z, r8) \<leftarrow> re_lit ''Zz'' r7] of
        [] \<Rightarrow> Inl ValueError
      | ((dt, h, mi, sec), r) # _ \<Rightarrow>
          if r \<noteq> [] then Inl ValueError
          else if valid_date dt \<and> sec \<le> 59 then Inr (dt, h, mi, sec) else Inl ValueError)"

definition MAXORDINAL :: int where
  "MAXORDINAL = 3652059"

definition str_to_date_full :: "(int \<Rightarrow> int \<Rightarrow> int) \<Rightarrow> string \<Rightarrow> exact_time res" where
  "str_to_date_full zone v =
     bnd (strptime_full v) (\<lambda>(d, h, mi, sec).
       let dy = toordinal d;
           t = int h * 3600 + int mi * 60 + int sec;
           off = zone dy t;
           local_day = dy + (t + off) div 86400
       in if 1 \<le> local_day \<and> local_day \<le> MAXORDINAL
          then Inr \<lparr>utc_day = dy, utc_sec = t, utc_off = off\<rparr>
          else Inl OverflowError)"

text \<open>\<^verbatim>\<open>exact_start.hour\<close>: the hour of the local wall-clock time.\<close>

definition local_hour :: "exact_time \<Rightarrow> int" where
  "local_hour x = ((utc_sec x + utc_off x) mod 86400) div 3600"

text \<open>
  \<^verbatim>\<open>delta = exact_end - exact_start\<close> on two aware datetimes. With equal offsets Python
  subtracts the wall-clock times, with different offsets the UTC times; both are the
  difference of the UTC instants. \<^verbatim>\<open>delta.days\<close> and \<^verbatim>\<open>delta.seconds\<close> are the floor
  quotient and the remainder by 86400. \<^verbatim>\<open>int(delta.seconds / 3600)\<close> divides floats: below
  86400 the quotient is exact or at least 1/3600 away from an integer, so it is the integer
  quotient.
\<close>

definition delta_seconds :: "exact_time \<Rightarrow> exact_time \<Rightarrow> int" where
  "delta_seconds exact_start exact_end =
     (utc_day exact_end - utc_day exact_start) * 86400 + (utc_sec exact_end - utc_sec exact_start)"

definition delta_days :: "exact_time \<Rightarrow> exact_time \<Rightarrow> int" where
  "delta_days exact_start exact_end = delta_seconds exact_start exact_end div 86400"

definition delta_hours :: "exact_time \<Rightarrow> exact_time \<Rightarrow> int" where
  "delta_hours exact_start exact_end = (delta_seconds exact_start exact_end mod 86400) div 3600"

text \<open>The block \<^verbatim>\<open>if hours >= 7\<close> of \<open>clean_event\<close>: the new days and hours, and the
  warning.\<close>

definition round_work_day :: "int \<Rightarrow> int \<Rightarrow> int \<times> int \<times> log_msg list" where
  "round_work_day days hours =
     (if hours \<ge> 7 then
        (if hours > 9 then (days + 1, hours, [WarnMoreThan9Hours (days + 1) hours])
         else (days + 1, 0, []))
      else (days, hours, []))"

text \<open>The branch \<^verbatim>\<open>if exact_start and exact_end\<close> of \<open>clean_event\<close>.\<close>

definition clean_exact :: "exact_time \<Rightarrow> exact_time \<Rightarrow> event \<Rightarrow> (event \<times> log_msg list) res" where
  "clean_exact exact_start exact_end event =
     (case round_work_day (delta_days exact_start exact_end) (delta_hours exact_start exact_end) of
        (days, hours, lg) \<Rightarrow>
          if days > 0 then
            bnd (if hours > 0 then
                   bnd (od_append_str SUMMARY ''?'' event) (\<lambda>e1.
                     bnd (od_append_str DESC ('' hours: '' @ py_str hours) e1) (\<lambda>e2.
                       Inr (e2, days + 1, lg @ [WarnOneDayOrMore days hours])))
                 else Inr (event, days, lg)) (\<lambda>(e3, days', lg').
              bnd (replace_day_key e3 days' SUMMARY) (\<lambda>e4.
                bnd (replace_day_key e4 days' DESC) (\<lambda>e5. Inr (e5, lg'))))
          else
            bnd (if hours \<le> 4 then
                   bnd (od_get_str SUMMARY event) (\<lambda>v.
                     Inr (od_set SUMMARY
                            (S ((if local_hour exact_start < 12 then ''AM'' else ''PM'') @ '' '' @ v))
                            event))
                 else Inr event) (\<lambda>e1.
              bnd (replaced_time_key e1 hours SUMMARY) (\<lambda>e2.
                bnd (replaced_time_key e2 hours DESC) (\<lambda>e3. Inr (e3, lg)))))"

definition pop_exact ::
  "(int \<Rightarrow> int \<Rightarrow> int) \<Rightarrow> string \<Rightarrow> event \<Rightarrow> (exact_time option \<times> event) res" where
  "pop_exact zone key event =
     (if od_in key event then
        bnd (od_get_str key event) (\<lambda>v.
          bnd (str_to_date_full zone v) (\<lambda>x. Inr (Some x, od_pop key event)))
      else Inr (None, event))"

definition clean_event :: "(int \<Rightarrow> int \<Rightarrow> int) \<Rightarrow> event \<Rightarrow> (event \<times> log_msg list) res" where
  "clean_event zone event =
     bnd (if \<not> od_in DATE_END event then
            bnd (od_get_str DATE_START event) (\<lambda>s.
              bnd (date_next_day_str s) (\<lambda>e. move_to_end END (od_set DATE_END (S e) event)))
          else Inr event) (\<lambda>ev1.
       bnd (pop_exact zone ORIG_DATE_START ev1) (\<lambda>(exact_start, ev2).
         bnd (pop_exact zone ORIG_DATE_END ev2) (\<lambda>(exact_end, ev3).
           case (exact_start, exact_end) of
             (Some st, Some en) \<Rightarrow> clean_exact st en ev3
           | _ \<Rightarrow>
               bnd (od_get_str SUMMARY ev3) (\<lambda>s.
                 if get_hours s \<ge> 7 then bnd (replace_day_key ev3 1 SUMMARY) (\<lambda>e. Inr (e, []))
                 else Inr (ev3, [])))))"

section \<open>The event classifier and the index of the first loop\<close>

text \<open>\<^verbatim>\<open>re.sub(r' \(.+\)\?*', '', value)\<close> (merge variant, \<open>q\<close> true) and
  \<^verbatim>\<open>re.sub(r' \(.+\)', '', value)\<close>: the greedy \<^verbatim>\<open>.+\<close> runs to the last closing
  parenthesis, so the text after a match holds no other match.\<close>

definition match_owner :: "bool \<Rightarrow> string \<Rightarrow> string option" where
  "match_owner q s =
     (case s of
        a # b # r \<Rightarrow>
          if a = CHR '' '' \<and> b = CHR ''('' \<and> r \<noteq> [] \<and> CHR '')'' \<in> set (tl r)
          then Some ((if q then dropWhile (\<lambda>c. c = CHR ''?'') else id)
                       (rev (takeWhile (\<lambda>c. c \<noteq> CHR '')'') (rev r))))
          else None
      | _ \<Rightarrow> None)"

fun sub_owner :: "bool \<Rightarrow> string \<Rightarrow> string" where
  "sub_owner q [] = []"
| "sub_owner q (c # cs) =
     (case match_owner q (c # cs) of Some rest \<Rightarrow> rest | None \<Rightarrow> c # sub_owner q cs)"

definition sub_AM_PM :: "string \<Rightarrow> string" where
  "sub_AM_PM v = (if search_AM_PM v then drop 3 v else v)"

definition get_owner_m :: "string \<Rightarrow> string" where
  "get_owner_m v = lower (sub_AM_PM (sub_owner True v))"

definition get_owner_x :: "string \<Rightarrow> string" where
  "get_owner_x v = lower (sub_AM_PM (sub_owner False v))"

fun find_first :: "(string \<Rightarrow> 'a option) \<Rightarrow> string \<Rightarrow> 'a option" where
  "find_first f [] = None"
| "find_first f (c # cs) = (case f (c # cs) of Some x \<Rightarrow> Some x | None \<Rightarrow> find_first f cs)"

definition match_cat_m :: "string \<Rightarrow> string option" where
  "match_cat_m s =
     (case s of
        a # b # r \<Rightarrow>
          if a = CHR ''('' \<and> is_lower b \<and> takeWhile (\<lambda>c. c \<noteq> CHR '')'') r \<noteq> []
             \<and> dropWhile (\<lambda>c. c \<noteq> CHR '')'') r \<noteq> []
          then Some (b # takeWhile (\<lambda>c. c \<noteq> CHR '')'') r) else None
      | _ \<Rightarrow> None)"

definition match_cat_x :: "string \<Rightarrow> string option" where
  "match_cat_x s =
     (case s of
        a # r \<Rightarrow>
          if a = CHR ''('' \<and> takeWhile (\<lambda>c. is_lower c \<or> c = CHR '' '') r \<noteq> []
             \<and> take 1 (dropWhile (\<lambda>c. is_lower c \<or> c = CHR '' '') r) = '')''
          then Some (takeWhile (\<lambda>c. is_lower c \<or> c = CHR '' '') r) else None
      | _ \<Rightarrow> None)"

definition get_category_m :: "string \<Rightarrow> string" where
  "get_category_m v =
     title (case find_first match_cat_m (lower v) of Some cat \<Rightarrow> cat | None \<Rightarrow> ''off'')"

definition get_category_x :: "string \<Rightarrow> string" where
  "get_category_x v =
     filter (\<lambda>c. \<not> is_space c)
       (title (case find_first match_cat_x (lower v) of Some cat \<Rightarrow> cat | None \<Rightarrow> ''off''))"

text \<open>\<^verbatim>\<open>int(s)\<close> on ASCII text: blanks around, a sign, digits with single underscores
  between them.\<close>

fun int_body_ok :: "string \<Rightarrow> bool" where
  "int_body_ok [] = False"
| "int_body_ok [c] = is_digit c"
| "int_body_ok (c # d # r) =
     (is_digit c \<and> (if d = CHR ''_'' then int_body_ok r else int_body_ok (d # r)))"

definition py_int :: "string \<Rightarrow> int res" where
  "py_int s =
     (let t = strip s;
          neg = (take 1 t = ''-'');
          u = (if take 1 t = ''-'' \<or> take 1 t = ''+'' then drop 1 t else t)
      in if int_body_ok u
         then Inr ((if neg then - 1 else 1) * int (digits_val (filter (\<lambda>c. c \<noteq> CHR ''_'') u)))
         else Inl ValueError)"

definition get_date :: "event \<Rightarrow> int res" where
  "get_date event = bnd (get_date_str event) py_int"

text \<open>The index \<^verbatim>\<open>owners\<close>: owner, then category, then date, then the events in the
  order they were added. Each level is a dictionary, kept as an association list with
  distinct keys.\<close>

type_synonym owners = "(string \<times> (string \<times> (int \<times> event list) list) list) list"

definition al_setdefault :: "'k \<Rightarrow> 'v \<Rightarrow> ('k \<times> 'v) list \<Rightarrow> ('k \<times> 'v) list" where
  "al_setdefault k v al = (if map_of al k \<noteq> None then al else al @ [(k, v)])"

definition al_modify :: "'k \<Rightarrow> ('v \<Rightarrow> 'v) \<Rightarrow> ('k \<times> 'v) list \<Rightarrow> ('k \<times> 'v) list" where
  "al_modify k f al = map (\<lambda>(k', v). if k' = k then (k', f v) else (k', v)) al"

definition owners_add :: "string \<Rightarrow> string \<Rightarrow> int \<Rightarrow> event \<Rightarrow> owners \<Rightarrow> owners" where
  "owners_add owner cat date event os =
     al_modify owner
       (\<lambda>types. al_modify cat
          (\<lambda>dates. al_modify date (\<lambda>evs. evs @ [event]) (al_setdefault date [] dates))
          (al_setdefault cat [] types))
       (al_setdefault owner [] os)"

definition plain_line :: "string \<times> fval \<Rightarrow> string res" where
  "plain_line kv = (case kv of (k, S v) \<Rightarrow> Inr (k @ '':'' @ v) | (k, L _) \<Rightarrow> Inl TypeError)"

definition print_all :: "owners \<Rightarrow> string list res" where
  "print_all os =
     res_list (map plain_line
       (concat (concat (map (\<lambda>(owner, types).
          concat (map (\<lambda>(cat, dates). concat (map snd (sort_key fst dates)))
            (sort_key fst types)))
          (sort_key fst os)))))"

section \<open>The two passes over the lines\<close>

text \<open>
  A step of a loop ends in the next iteration (\<open>Next\<close>; this is also \<^verbatim>\<open>continue\<close>), in
  \<^verbatim>\<open>break\<close>, or in an exception, which ends the program. The state kept with an exception
  is the state before the failing statement; lines that \<open>print_dict\<close> wrote before it failed
  are not in it.
\<close>

datatype 'a flow = Next 'a | Break 'a | Raise py_error 'a

fun run_loop :: "('s \<Rightarrow> string \<Rightarrow> 's flow) \<Rightarrow> 's \<Rightarrow> string list \<Rightarrow> 's flow" where
  "run_loop step st [] = Next st"
| "run_loop step st (l # ls) =
     (case step st l of
        Next st' \<Rightarrow> run_loop step st' ls
      | Break st' \<Rightarrow> Break st'
      | Raise e st' \<Rightarrow> Raise e st')"

text \<open>\<^verbatim>\<open>key, value = line.split(":", 1)\<close>; without a colon the unpacking raises ValueError.\<close>

definition split_colon :: "string \<Rightarrow> (string \<times> string) option" where
  "split_colon line =
     (if CHR '':'' \<in> set line
      then Some (takeWhile (\<lambda>c. c \<noteq> CHR '':'') line, tl (dropWhile (\<lambda>c. c \<noteq> CHR '':'') line))
      else None)"

record pass1_state =
  p1_event :: "event option"
  p1_owners :: owners
  p1_out :: "string list"
  p1_log :: "log_msg list"

definition pass1_init :: pass1_state where
  "pass1_init = \<lparr>p1_event = None, p1_owners = [], p1_out = [], p1_log = []\<rparr>"

text \<open>What the first pass of both scripts does at \<^verbatim>\<open>END:VEVENT\<close> after the event is complete.\<close>

definition index_event ::
  "(string \<Rightarrow> string) \<Rightarrow> (string \<Rightarrow> string) \<Rightarrow> event \<Rightarrow> owners \<Rightarrow> owners res" where
  "index_event get_owner get_category event os =
     bnd (od_get_str SUMMARY event) (\<lambda>s.
       bnd (get_date event) (\<lambda>date.
         Inr (owners_add (get_owner s) (get_category s) date event os)))"

definition first_pass_step_m ::
  "(int \<Rightarrow> int \<Rightarrow> int) \<Rightarrow> pass1_state \<Rightarrow> string \<Rightarrow> pass1_state flow" where
  "first_pass_step_m zone st raw =
     (let line = rstrip raw in
      case split_colon line of
        None \<Rightarrow> Raise ValueError st
      | Some (key, v) \<Rightarrow>
          if v = [] then Next st
          else if \<not> truthy (p1_event st) \<and> line \<noteq> ''BEGIN:VEVENT'' then
            (if line = ''END:VCALENDAR'' then
               (case print_all (p1_owners st) of
                  Inl e \<Rightarrow> Raise e st
                | Inr ls \<Rightarrow> Next (st\<lparr>p1_out := p1_out st @ ls @ [line]\<rparr>))
             else Next (st\<lparr>p1_out := p1_out st @ [line]\<rparr>))
          else
            (let event = (case p1_event st of None \<Rightarrow> [] | Some ev \<Rightarrow> ev) in
             case (if (key = DATE_START \<or> key = DATE_END) \<and> CHR ''T'' \<in> set v then
                     (if key = DATE_END
                      then bnd (date_next_day_str (take 8 v)) (\<lambda>v'.
                             Inr (od_set (''ORIG'' @ key) (S v) event, v'))
                      else Inr (od_set (''ORIG'' @ key) (S v) event, take 8 v))
                   else Inr (event, v)) of
               Inl e \<Rightarrow> Raise e (st\<lparr>p1_event := Some event\<rparr>)
             | Inr (ev1, v1) \<Rightarrow>
                 (let ev2 = od_set key (S v1) ev1 in
                  if key = END then
                    (if v1 = ''VEVENT'' then
                       (case bnd (clean_event zone ev2) (\<lambda>(ev3, lg).
                               bnd (index_event get_owner_m get_category_m ev3 (p1_owners st))
                                 (\<lambda>os. Inr (os, lg))) of
                          Inl e \<Rightarrow> Raise e (st\<lparr>p1_event := Some ev2\<rparr>)
                        | Inr (os, lg) \<Rightarrow>
                            Next (st\<lparr>p1_event := None, p1_owners := os,
                                       p1_log := p1_log st @ lg\<rparr>))
                     else Next (st\<lparr>p1_event := Some ev2,
                                     p1_log := p1_log st @ [ErrLine line]\<rparr>))
                  else Next (st\<lparr>p1_event := Some ev2\<rparr>))))"

definition first_pass_step_x :: "pass1_state \<Rightarrow> string \<Rightarrow> pass1_state flow" where
  "first_pass_step_x st raw =
     (let line = rstrip raw in
      case split_colon line of
        None \<Rightarrow> Raise ValueError st
      | Some (key, v) \<Rightarrow>
          if \<not> truthy (p1_event st) \<and> line \<noteq> ''BEGIN:VEVENT'' then
            (if line = ''END:VCALENDAR'' then
               (case print_all (p1_owners st) of
                  Inl e \<Rightarrow> Raise e st
                | Inr ls \<Rightarrow> Next (st\<lparr>p1_out := p1_out st @ ls @ [line]\<rparr>))
             else Next (st\<lparr>p1_out := p1_out st @ [line]\<rparr>))
          else
            (let event = (case p1_event st of None \<Rightarrow> [] | Some ev \<Rightarrow> ev);
                 ev2 = od_set key (S v) event
             in if key = END then
                  (if v = ''VEVENT'' then
                     (case index_event get_owner_x get_category_x ev2 (p1_owners st) of
                        Inl e \<Rightarrow> Raise e (st\<lparr>p1_event := Some ev2\<rparr>)
                      | Inr os \<Rightarrow> Next (st\<lparr>p1_event := None, p1_owners := os\<rparr>))
                   else Next (st\<lparr>p1_event := Some ev2, p1_log := p1_log st @ [ErrLine line]\<rparr>))
                else Next (st\<lparr>p1_event := Some ev2\<rparr>)))"

record pass2_state =
  in_event :: bool
  new_event :: "event option"
  prev_event :: "event option"
  fp_out :: "string list"
  stdout :: "log_msg list"

definition pass2_init :: pass2_state where
  "pass2_init = \<lparr>in_event = False, new_event = None, prev_event = None, fp_out = [], stdout = []\<rparr>"

text \<open>The second loop has the same text in both scripts but for the functions it calls,
  which are parameters here: \<open>print_dict\<close> and the decision at \<^verbatim>\<open>END:VEVENT\<close>.\<close>

definition second_pass_step ::
  "(event option \<Rightarrow> (event \<times> string list \<times> log_msg list) res) \<Rightarrow>
   (event option \<Rightarrow> event \<Rightarrow> (event \<times> string list \<times> log_msg list) res) \<Rightarrow>
   pass2_state \<Rightarrow> string \<Rightarrow> pass2_state flow" where
  "second_pass_step print_dict consolidate st raw =
     (let line = rstrip raw in
      case split_colon line of
        None \<Rightarrow> Raise ValueError st
      | Some (key, v) \<Rightarrow>
          if \<not> in_event st \<and> line \<noteq> ''BEGIN:VEVENT'' then
            (if line = ''END:VCALENDAR'' then
               (case print_dict (prev_event st) of
                  Inl e \<Rightarrow> Raise e st
                | Inr (ev, ls, lg) \<Rightarrow>
                    Next (st\<lparr>prev_event := Some ev, fp_out := fp_out st @ ls @ [line],
                             stdout := stdout st @ lg\<rparr>))
             else Next (st\<lparr>fp_out := fp_out st @ [line]\<rparr>))
          else
            (let st1 = (if \<not> in_event st then st\<lparr>in_event := True, new_event := Some []\<rparr> else st) in
             case new_event st1 of
               None \<Rightarrow> Raise TypeError st1
             | Some ne \<Rightarrow>
                 (let ne' = od_set key (S v) ne in
                  if key = END then
                    (if v = ''VEVENT'' then
                       (case consolidate (prev_event st1) ne' of
                          Inl e \<Rightarrow> Raise e (st1\<lparr>in_event := False, new_event := Some ne'\<rparr>)
                        | Inr (p, ls, lg) \<Rightarrow>
                            Next (st1\<lparr>in_event := False, new_event := None, prev_event := Some p,
                                        fp_out := fp_out st1 @ ls, stdout := stdout st1 @ lg\<rparr>))
                     else Break (st1\<lparr>new_event := Some ne', stdout := stdout st1 @ [ErrLine line]\<rparr>))
                  else Next (st1\<lparr>new_event := Some ne'\<rparr>))))"

definition second_pass_step_m :: "pass2_state \<Rightarrow> string \<Rightarrow> pass2_state flow" where
  "second_pass_step_m = second_pass_step print_dict_m consolidate_m"

definition second_pass_step_x :: "pass2_state \<Rightarrow> string \<Rightarrow> pass2_state flow" where
  "second_pass_step_x = second_pass_step print_dict_x consolidate_x"

text \<open>The whole program: the lines of the input file to the lines of the output file. The
  second loop reads what the first wrote to the scratch file.\<close>

definition second_pass :: "(pass2_state \<Rightarrow> string \<Rightarrow> pass2_state flow) \<Rightarrow> string list \<Rightarrow> string list res" where
  "second_pass step tmp =
     (case run_loop step pass2_init tmp of
        Raise e st \<Rightarrow> Inl e
      | Next st \<Rightarrow> Inr (fp_out st)
      | Break st \<Rightarrow> Inr (fp_out st))"

definition main_m :: "(int \<Rightarrow> int \<Rightarrow> int) \<Rightarrow> string list \<Rightarrow> string list res" where
  "main_m zone input =
     (case run_loop (first_pass_step_m zone) pass1_init input of
        Raise e st \<Rightarrow> Inl e
      | Next st \<Rightarrow> second_pass second_pass_step_m (p1_out st)
      | Break st \<Rightarrow> second_pass second_pass_step_m (p1_out st))"

definition main_x :: "string list \<Rightarrow> string list res" where
  "main_x input =
     (case run_loop first_pass_step_x pass1_init input of
        Raise e st \<Rightarrow> Inl e
      | Next st \<Rightarrow> second_pass second_pass_step_x (p1_out st)
      | Break st \<Rightarrow> second_pass second_pass_step_x (p1_out st))"

section \<open>Notions of the specification\<close>

text \<open>The \<^verbatim>\<open>YYYYMMDD\<close> form of a date: four digits of the year, two of the month, two of
  the day. A valid \<^verbatim>\<open>YYYYMMDD\<close> string is one that \<open>str_to_date\<close> reads as a date whose
  \<^verbatim>\<open>YYYYMMDD\<close> form it is.\<close>

definition yyyymmdd :: "date \<Rightarrow> string" where
  "yyyymmdd d = pad4 (year d) @ pad2 (month d) @ pad2 (day d)"



text \<open>The terminator-last invariant: the event is not empty and its last field is
  \<^verbatim>\<open>END\<close>.\<close>

definition terminator_last :: "event \<Rightarrow> bool" where
  "terminator_last ev = (ev \<noteq> [] \<and> fst (last ev) = END)"

text \<open>The state a loop ended in.\<close>

fun flow_state :: "'a flow \<Rightarrow> 'a" where
  "flow_state (Next st) = st"
| "flow_state (Break st) = st"
| "flow_state (Raise e st) = st"

text \<open>The invariant of the second loop: the accumulator ends in its terminator, an event
  under construction has no terminator yet, and no terminator error was printed.\<close>

definition pass2_inv :: "pass2_state \<Rightarrow> bool" where
  "pass2_inv st =
     ((case prev_event st of None \<Rightarrow> True | Some p \<Rightarrow> terminator_last p)
      \<and> (in_event st \<longrightarrow> (case new_event st of None \<Rightarrow> False | Some ne \<Rightarrow> \<not> od_in END ne))
      \<and> ErrEndNotAtEnd \<notin> set (stdout st))"

text \<open>A line that is neither the start of an event block nor the end of the calendar, as
  the loops test it (after \<^verbatim>\<open>rstrip\<close>, with a colon to split at), and a line whose text
  after the first colon is not empty.\<close>

definition outside_line :: "string \<Rightarrow> bool" where
  "outside_line l = (split_colon (rstrip l) \<noteq> None \<and> rstrip l \<noteq> ''BEGIN:VEVENT''
     \<and> rstrip l \<noteq> ''END:VCALENDAR'')"

definition has_value :: "string \<Rightarrow> bool" where
  "has_value l = (case split_colon (rstrip l) of None \<Rightarrow> False | Some (k, v) \<Rightarrow> v \<noteq> [])"

text \<open>The whole-day rounding in the words of the specification: from 7 hours on one more
  whole day is counted, and the hours are set to zero from 7 to 9 and kept above 9.\<close>

definition whole_day_rounding :: "int \<Rightarrow> int \<Rightarrow> int \<times> int" where
  "whole_day_rounding days hours =
     (if 7 \<le> hours then (days + 1, if hours \<le> 9 then 0 else hours) else (days, hours))"

text \<open>The instant of an exact time, in seconds, and the seconds between two exact times as
  their local wall clocks show them.\<close>

definition utc_instant :: "exact_time \<Rightarrow> int" where
  "utc_instant x = utc_day x * 86400 + utc_sec x"

definition wall_clock_seconds :: "exact_time \<Rightarrow> exact_time \<Rightarrow> int" where
  "wall_clock_seconds a b = (utc_instant b + utc_off b) - (utc_instant a + utc_off a)"

section \<open>Calendar arithmetic\<close>

lemma mod_100_4: "(n::nat) mod 100 = 0 \<Longrightarrow> n mod 4 = 0"
  by presburger

lemma mod_400_100: "(n::nat) mod 400 = 0 \<Longrightarrow> n mod 100 = 0"
  by presburger

lemma nmod_4_100: "(n::nat) mod 4 \<noteq> 0 \<Longrightarrow> n mod 100 \<noteq> 0"
  by presburger

lemma nmod_100_400: "(n::nat) mod 100 \<noteq> 0 \<Longrightarrow> n mod 400 \<noteq> 0"
  by presburger

lemma dby_Suc:
  assumes "1 \<le> y"
  shows "days_before_year (Suc y) = days_before_year y + (if is_leap y then 366 else 365)"
proof -
  from assms obtain p where y: "y = Suc p" by (cases y) auto
  have D1: "days_before_year (Suc (Suc p)) =
      int p * 365 + 365 + int (Suc p div 4) - int (Suc p div 100) + int (Suc p div 400)"
    by (simp add: days_before_year_def)
  have D0: "days_before_year (Suc p) = int p * 365 + int (p div 4) - int (p div 100) + int (p div 400)"
    by (simp add: days_before_year_def)
  show ?thesis
  proof (cases "Suc p mod 4 = 0")
    case False
    then have n100: "Suc p mod 100 \<noteq> 0" by (rule nmod_4_100)
    then have n400: "Suc p mod 400 \<noteq> 0" by (rule nmod_100_400)
    have "Suc p div 4 = p div 4" "Suc p div 100 = p div 100" "Suc p div 400 = p div 400"
      using False n100 n400 by (simp_all add: div_Suc)
    moreover have "\<not> is_leap (Suc p)" using False by (simp add: is_leap_def)
    ultimately show ?thesis unfolding y D1 D0 by simp
  next
    case t4: True
    show ?thesis
    proof (cases "Suc p mod 100 = 0")
      case False
      then have n400: "Suc p mod 400 \<noteq> 0" by (rule nmod_100_400)
      have "Suc p div 4 = Suc (p div 4)" "Suc p div 100 = p div 100" "Suc p div 400 = p div 400"
        using t4 False n400 by (simp_all add: div_Suc)
      moreover have "is_leap (Suc p)" using t4 False by (simp add: is_leap_def)
      ultimately show ?thesis unfolding y D1 D0 by simp
    next
      case t100: True
      show ?thesis
      proof (cases "Suc p mod 400 = 0")
        case True
        have "Suc p div 4 = Suc (p div 4)" "Suc p div 100 = Suc (p div 100)" "Suc p div 400 = Suc (p div 400)"
          using t4 t100 True by (simp_all add: div_Suc)
        moreover have "is_leap (Suc p)" using t4 True by (simp add: is_leap_def)
        ultimately show ?thesis unfolding y D1 D0 by simp
      next
        case False
        have "Suc p div 4 = Suc (p div 4)" "Suc p div 100 = Suc (p div 100)" "Suc p div 400 = p div 400"
          using t4 t100 False by (simp_all add: div_Suc)
        moreover have "\<not> is_leap (Suc p)" using t100 False by (simp add: is_leap_def)
        ultimately show ?thesis unfolding y D1 D0 by simp
      qed
    qed
  qed
qed

lemma dbm_Suc:
  assumes "1 \<le> m"
  shows "days_before_month y (Suc m) = days_before_month y m + int (days_in_month y m)"
  using assms by (simp add: days_before_month_def)

lemma upt_1_12: "[Suc 0..<12] = [1, 2, 3, 4, 5, 6, 7, 8, 9, 10, 11]"
  by code_simp

lemma dbm_12: "days_before_month y 12 + 31 = (if is_leap y then 366 else 365)"
  by (simp add: days_before_month_def upt_1_12 days_in_month_def)

lemma dbm_1: "days_before_month y (Suc 0) = 0"
  by (simp add: days_before_month_def)

lemma dim_12: "days_in_month y 12 = 31"
  by (simp add: days_in_month_def)

lemma toord_succ: "valid_date d \<Longrightarrow> toordinal (date_succ d) = toordinal d + 1"
proof (cases d)
  case (Date y m dd)
  assume v: "valid_date d"
  with Date have m: "1 \<le> m" "m \<le> 12" and y: "1 \<le> y" and dd: "1 \<le> dd" "dd \<le> days_in_month y m"
    by (simp_all add: valid_date_def)
  show ?thesis
  proof (cases "dd < days_in_month y m")
    case True
    then show ?thesis using Date by (simp add: toordinal_def date_succ_def)
  next
    case False
    with dd have e: "dd = days_in_month y m" by simp
    show ?thesis
    proof (cases "m < 12")
      case True
      then show ?thesis using Date e m dbm_Suc[OF m(1), of y]
        by (simp add: toordinal_def date_succ_def)
    next
      case False
      with m have m12: "m = 12" by simp
      have "days_before_year (Suc y) + 1 = days_before_year y + days_before_month y 12 + 31 + 1"
        using dbm_12[of y] dby_Suc[OF y] by simp
      then show ?thesis using Date e m12
        by (simp add: toordinal_def date_succ_def dim_12 dbm_1)
    qed
  qed
qed

lemma dim_pos: "1 \<le> days_in_month y m"
  by (simp add: days_in_month_def)




lemma pred_succ:
  assumes v: "valid_date d"
  shows "date_pred (date_succ d) = d"
proof (cases d)
  case (Date y m dd)
  with v have m: "1 \<le> m" "m \<le> 12" and dd: "1 \<le> dd" "dd \<le> days_in_month y m"
    by (simp_all add: valid_date_def)
  show ?thesis
  proof (cases "dd < days_in_month y m")
    case True
    then show ?thesis using Date dd by (simp add: date_succ_def date_pred_def)
  next
    case False
    with dd have e: "dd = days_in_month y m" by simp
    show ?thesis
    proof (cases "m < 12")
      case True
      then show ?thesis using Date e m by (simp add: date_succ_def date_pred_def)
    next
      case False
      with m have m12: "m = 12" by simp
      then show ?thesis using Date e by (simp add: date_succ_def date_pred_def dim_12)
    qed
  qed
qed

lemma valid_pred:
  assumes v: "valid_date d" and nm: "d \<noteq> Date 1 1 1"
  shows "valid_date (date_pred d)"
proof (cases d)
  case (Date y m dd)
  with v have m: "1 \<le> m" "m \<le> 12" and y: "1 \<le> y" "y \<le> 9999" and dd: "1 \<le> dd" "dd \<le> days_in_month y m"
    by (simp_all add: valid_date_def)
  show ?thesis
  proof (cases "1 < dd")
    case True
    then have "1 \<le> dd - 1" "dd - 1 \<le> days_in_month y m" using dd by arith+
    then show ?thesis using Date m y True by (simp add: valid_date_def date_pred_def)
  next
    case False
    with dd have e: "dd = 1" by simp
    show ?thesis
    proof (cases "1 < m")
      case True
      then have "1 \<le> m - 1" "m - 1 \<le> 12" using m by arith+
      then show ?thesis using Date e True y dim_pos[of y "m - 1"]
        by (simp add: valid_date_def date_pred_def)
    next
      case False
      with m have m1: "m = 1" by simp
      with Date e nm have "y \<noteq> 1" by simp
      with y have "1 \<le> y - 1" "y - 1 \<le> 9999" by arith+
      then show ?thesis using Date e m1
        by (simp add: valid_date_def date_pred_def dim_12)
    qed
  qed
qed

lemma succ_pred:
  assumes v: "valid_date d" and nm: "d \<noteq> Date 1 1 1"
  shows "date_succ (date_pred d) = d"
proof (cases d)
  case (Date y m dd)
  with v have m: "1 \<le> m" "m \<le> 12" and y: "1 \<le> y" and dd: "1 \<le> dd" "dd \<le> days_in_month y m"
    by (simp_all add: valid_date_def)
  show ?thesis
  proof (cases "1 < dd")
    case True
    then show ?thesis using Date dd by (simp add: date_succ_def date_pred_def)
  next
    case False
    with dd have e: "dd = 1" by simp
    show ?thesis
    proof (cases "1 < m")
      case True
      then have "m - 1 < 12" "Suc (m - 1) = m" using m by arith+
      then show ?thesis using Date e True by (simp add: date_succ_def date_pred_def)
    next
      case False
      with m have m1: "m = 1" by simp
      with Date e nm have "y \<noteq> 1" by simp
      with y have "Suc (y - 1) = y" by arith
      then show ?thesis using Date e m1 by (simp add: date_succ_def date_pred_def dim_12)
    qed
  qed
qed

lemma toord_pred:
  assumes v: "valid_date d" and nm: "d \<noteq> Date 1 1 1"
  shows "toordinal (date_pred d) + 1 = toordinal d"
  using toord_succ[OF valid_pred[OF v nm]] succ_pred[OF v nm] by simp

section \<open>Parsing and printing dates\<close>

















section \<open>The final flush\<close>

lemma run_loop_pass_through:
  assumes "\<forall>l \<in> set pre. split_colon (rstrip l) \<noteq> None \<and> rstrip l \<noteq> ''BEGIN:VEVENT''
             \<and> rstrip l \<noteq> ''END:VCALENDAR''"
    and "\<not> in_event st" and "prev_event st = None"
    and "pd None = Inl TypeError"
  shows "\<exists>st'. run_loop (second_pass_step pd co) st (pre @ ''END:VCALENDAR'' # rest) = Raise TypeError st'"
  using assms
proof (induction pre arbitrary: st)
  case Nil
  then show ?case
    by (simp add: second_pass_step_def rstrip_def is_space_def split_colon_def)
next
  case (Cons l pre)
  from Cons.prems(1) obtain k v where kv: "split_colon (rstrip l) = Some (k, v)"
    and nb: "rstrip l \<noteq> ''BEGIN:VEVENT''" and ne: "rstrip l \<noteq> ''END:VCALENDAR''"
    by auto
  let ?st1 = "st\<lparr>fp_out := fp_out st @ [rstrip l]\<rparr>"
  have step: "second_pass_step pd co st l = Next ?st1"
    using kv nb ne Cons.prems(2) by (simp add: second_pass_step_def)
  have "\<exists>st'. run_loop (second_pass_step pd co) ?st1 (pre @ ''END:VCALENDAR'' # rest) = Raise TypeError st'"
    using Cons.prems by (intro Cons.IH) simp_all
  then show ?case using step by simp
qed

text \<open>
  C10. When the end-of-calendar line is reached, both scripts call \<open>print_dict\<close> on the
  accumulator without checking that there is one. For an input whose lines before
  \<^verbatim>\<open>END:VCALENDAR\<close> hold no event block, the accumulator is still \<^verbatim>\<open>None\<close>, and the
  second loop of either script ends in the TypeError that \<open>print_dict\<close> raises on it.
\<close>

theorem final_flush_without_event:
  assumes "\<forall>l \<in> set pre. split_colon (rstrip l) \<noteq> None \<and> rstrip l \<noteq> ''BEGIN:VEVENT''
             \<and> rstrip l \<noteq> ''END:VCALENDAR''"
  shows "print_dict_m None = Inl TypeError \<and> print_dict_x None = Inl TypeError
       \<and> second_pass second_pass_step_m (pre @ ''END:VCALENDAR'' # rest) = Inl TypeError
       \<and> second_pass second_pass_step_x (pre @ ''END:VCALENDAR'' # rest) = Inl TypeError"
proof -
  have m: "print_dict_m None = Inl TypeError" by (simp add: print_dict_m_def)
  have x: "print_dict_x None = Inl TypeError" by (simp add: print_dict_x_def)
  have i: "\<not> in_event pass2_init" "prev_event pass2_init = None" by (simp_all add: pass2_init_def)
  from run_loop_pass_through[where pd = print_dict_m and co = consolidate_m and rest = rest
        and st = pass2_init, OF assms i m]
  have "second_pass second_pass_step_m (pre @ ''END:VCALENDAR'' # rest) = Inl TypeError"
    by (auto simp add: second_pass_def second_pass_step_m_def)
  moreover from run_loop_pass_through[where pd = print_dict_x and co = consolidate_x and rest = rest
        and st = pass2_init, OF assms i x]
  have "second_pass second_pass_step_x (pre @ ''END:VCALENDAR'' # rest) = Inl TypeError"
    by (auto simp add: second_pass_def second_pass_step_x_def)
  ultimately show ?thesis using m x by simp
qed

theorem final_flush_without_event_witness:
  "second_pass second_pass_step_m [''BEGIN:VCALENDAR'', ''END:VCALENDAR''] = Inl TypeError
   \<and> second_pass second_pass_step_x [''BEGIN:VCALENDAR'', ''END:VCALENDAR''] = Inl TypeError"
proof -
  have h: "\<forall>l \<in> set [''BEGIN:VCALENDAR'']. split_colon (rstrip l) \<noteq> None
             \<and> rstrip l \<noteq> ''BEGIN:VEVENT'' \<and> rstrip l \<noteq> ''END:VCALENDAR''"
    by (simp add: rstrip_def is_space_def split_colon_def)
  from final_flush_without_event[OF h, of "[]"] show ?thesis by simp
qed

section \<open>The next-eligible-date rule\<close>

lemma bnd_simps [simp]: "bnd (Inl e) f = Inl e" "bnd (Inr x) f = f x"
  by (simp_all add: bnd_def)




lemma upt_Suc0_numeral:
  "[Suc 0..<numeral n] = (if Suc 0 < numeral n then Suc 0 # [2..<numeral n] else [])"
  by (subst upt_rec) (simp add: numeral_2_eq_2)

lemmas date_eval =
  toordinal_def days_before_year_def days_before_month_def days_in_month_def is_leap_def
  weekday_def upt_Suc0_numeral date_succ_def date_pred_def valid_date_def

lemmas parse_eval =
  str_to_date_def strptime_ymd_def re_m_def re_d_def is_digit_def is_digit19_def digit_val_def
  digits_val_def date_to_str_def strftime_ymd_def yyyymmdd_def show_nat.simps pad2_def pad4_def
  digit_char_def






section \<open>The same-activity comparison\<close>

lemma match_tag_append_space:
  assumes "CHR '' '' \<notin> set us" and "s \<noteq> []"
  shows "match_tag sp us (s @ CHR '' '' # w)
       = map_option (\<lambda>(ds, r). (ds, r @ CHR '' '' # w)) (match_tag sp us s)"
proof -
  have sp_nd: "\<not> is_digit (CHR '' '')" by (simp add: is_digit_def)
  have tw: "takeWhile is_digit (r @ CHR '' '' # w) = takeWhile is_digit r" for r
    by (induction r) (simp_all add: sp_nd)
  have dw: "dropWhile is_digit (r @ CHR '' '' # w) = dropWhile is_digit r @ CHR '' '' # w" for r
    by (induction r) (simp_all add: sp_nd)
  have core: "match_tag False us (s @ CHR '' '' # w)
       = map_option (\<lambda>(ds, r). (ds, r @ CHR '' '' # w)) (match_tag False us s)" if sne: "s \<noteq> []" for s
  proof -
    obtain c r where s: "s = c # r" using sne by (cases s) auto
    show ?thesis
    proof (cases "dropWhile is_digit r")
      case Nil
      then have dwn: "dropWhile is_digit (r @ CHR '' '' # w) = CHR '' '' # w"
        by (simp only: dw) simp
      have o: "match_tag False us (c # r) = None"
        by (simp add: match_tag_def Nil del: dropWhile_eq_Nil_conv)
      have "match_tag False us (c # r @ CHR '' '' # w) = None"
        using assms(1) by (simp add: match_tag_def tw dwn split: list.splits)
      with o s show ?thesis by simp
    next
      case (Cons u t)
      show ?thesis
      proof (cases t)
        case Nil
        with Cons show ?thesis using s
          by (simp add: match_tag_def tw dw)
      next
        case (Cons c2 r3)
        with \<open>dropWhile is_digit r = u # t\<close> show ?thesis using s
          by (simp add: match_tag_def tw dw)
      qed
    qed
  qed
  show ?thesis
  proof (cases sp)
    case False
    then show ?thesis using core[OF assms(2)] by simp
  next
    case True
    obtain c r where s: "s = c # r" using assms(2) by (cases s) auto
    show ?thesis
    proof (cases "c = CHR '' '' \<and> r \<noteq> []")
      case False
      then show ?thesis using True s by (auto simp add: match_tag_def)
    next
      case t: True
      have a: "match_tag True us (CHR '' '' # x) = match_tag False us x" for x
        by (simp add: match_tag_def)
      show ?thesis using core[of r] t s True by (simp add: a)
    qed
  qed
qed

lemma re_sub_tag_append_space:
  assumes "CHR '' '' \<notin> set us"
  shows "re_sub_tag sp us r (u @ CHR '' '' # w)
       = re_sub_tag sp us r u @ re_sub_tag sp us r (CHR '' '' # w)"
  using assms
proof (induction sp us r u rule: re_sub_tag.induct)
  case (1 sp units repl)
  show ?case by simp
next
  case (2 sp units repl c cs)
  have m: "match_tag sp units ((c # cs) @ CHR '' '' # w)
       = map_option (\<lambda>(ds, r). (ds, r @ CHR '' '' # w)) (match_tag sp units (c # cs))"
    using "2.prems" by (intro match_tag_append_space) simp_all
  define T where "T = re_sub_tag sp units repl (CHR '' '' # w)"
  show ?case
  proof (cases "match_tag sp units (c # cs)")
    case None
    with m have nm: "match_tag sp units (c # cs @ CHR '' '' # w) = None" by simp
    have ih: "re_sub_tag sp units repl (cs @ CHR '' '' # w) = re_sub_tag sp units repl cs @ T"
      unfolding T_def using "2.IH"(1)[OF None "2.prems"] .
    have "re_sub_tag sp units repl ((c # cs) @ CHR '' '' # w)
        = c # re_sub_tag sp units repl (cs @ CHR '' '' # w)"
      using nm by simp
    also have "\<dots> = (c # re_sub_tag sp units repl cs) @ T" by (simp only: ih append_Cons)
    also have "c # re_sub_tag sp units repl cs = re_sub_tag sp units repl (c # cs)"
      using None by simp
    finally show ?thesis unfolding T_def .
  next
    case (Some x)
    obtain ds rest where x: "x = (ds, rest)" by (cases x)
    with Some m have sm: "match_tag sp units (c # cs @ CHR '' '' # w) = Some (ds, rest @ CHR '' '' # w)"
      by simp
    have ih: "re_sub_tag sp units repl (rest @ CHR '' '' # w) = re_sub_tag sp units repl rest @ T"
      unfolding T_def using "2.IH"(2)[OF Some x[symmetric] "2.prems"] .
    have "re_sub_tag sp units repl ((c # cs) @ CHR '' '' # w)
        = repl @ re_sub_tag sp units repl (rest @ CHR '' '' # w)"
      using sm by simp
    also have "\<dots> = (repl @ re_sub_tag sp units repl rest) @ T" by (simp only: ih append_assoc)
    also have "repl @ re_sub_tag sp units repl rest = re_sub_tag sp units repl (c # cs)"
      using Some x by simp
    finally show ?thesis unfolding T_def .
  qed
qed

lemma match_tag_at_tag:
  assumes "n \<noteq> []" "\<forall>c \<in> set n. is_digit c" "c \<in> set us" "\<not> is_digit c"
  shows "match_tag True us (CHR '' '' # CHR ''('' # n @ c # CHR '')'' # v) = Some (n, v)"
proof -
  have tw: "takeWhile is_digit (n @ c # CHR '')'' # v) = n"
    using assms(2,4) by (simp add: takeWhile_append2)
  have dw: "dropWhile is_digit (n @ c # CHR '')'' # v) = c # CHR '')'' # v"
    using assms(2,4) by (simp add: dropWhile_append2)
  show ?thesis using assms(1,3) by (simp add: match_tag_def tw dw)
qed

lemma strip_tag:
  assumes "CHR '' '' \<notin> set us" "n \<noteq> []" "\<forall>c \<in> set n. is_digit c" "c \<in> set us" "\<not> is_digit c"
  shows "re_sub_tag True us [] (u @ '' ('' @ n @ [c] @ '')'' @ v)
       = re_sub_tag True us [] u @ re_sub_tag True us [] v"
proof -
  have "re_sub_tag True us [] (u @ CHR '' '' # (CHR ''('' # n @ c # CHR '')'' # v))
      = re_sub_tag True us [] u @ re_sub_tag True us [] (CHR '' '' # CHR ''('' # n @ c # CHR '')'' # v)"
    using assms(1) by (rule re_sub_tag_append_space)
  also have "re_sub_tag True us [] (CHR '' '' # CHR ''('' # n @ c # CHR '')'' # v) = re_sub_tag True us [] v"
    using match_tag_at_tag[OF assms(2,3,4,5), of v] by simp
  finally show ?thesis by simp
qed

text \<open>
  C6 (as amended). Two events whose DESCRIPTION fields differ only in an embedded duration tag
  \<^verbatim>\<open> (Nh)\<close> or \<^verbatim>\<open> (Nd)\<close>, for any digits \<open>N\<close>, are the same activity for the
  description test of the merge variant. The expander variant strips hour tags only: it
  classifies them as the same activity when both tags are hour tags.
\<close>

theorem same_activity_under_tag_rewriting:
  assumes "od_get_str DESC a = Inr (u @ '' ('' @ n1 @ [c1] @ '')'' @ v)"
    and "od_get_str DESC b = Inr (u @ '' ('' @ n2 @ [c2] @ '')'' @ v)"
    and "n1 \<noteq> []" and "\<forall>c \<in> set n1. is_digit c"
    and "n2 \<noteq> []" and "\<forall>c \<in> set n2. is_digit c"
    and "c1 = CHR ''h'' \<or> c1 = CHR ''d''" and "c2 = CHR ''h'' \<or> c2 = CHR ''d''"
  shows "is_same_desc_m a b = Inr True
       \<and> (c1 = CHR ''h'' \<and> c2 = CHR ''h'' \<longrightarrow> is_same_desc_x a b = Inr True)"
proof -
  have nd: "\<not> is_digit c1" "\<not> is_digit c2"
    using assms(7,8) by (auto simp add: is_digit_def)
  have m1: "re_sub_tag True ''dh'' [] (u @ '' ('' @ n1 @ [c1] @ '')'' @ v)
      = re_sub_tag True ''dh'' [] u @ re_sub_tag True ''dh'' [] v"
    using assms(3,4,7) nd(1) by (intro strip_tag) auto
  have m2: "re_sub_tag True ''dh'' [] (u @ '' ('' @ n2 @ [c2] @ '')'' @ v)
      = re_sub_tag True ''dh'' [] u @ re_sub_tag True ''dh'' [] v"
    using assms(5,6,8) nd(2) by (intro strip_tag) auto
  have m: "is_same_desc_m a b = Inr True"
    unfolding is_same_desc_m_def get_desc_m_def assms(1,2) by (simp only: bnd_simps m1 m2) simp
  have x: "is_same_desc_x a b = Inr True" if h: "c1 = CHR ''h''" "c2 = CHR ''h''"
  proof -
    have x1: "re_sub_tag True ''h'' [] (u @ '' ('' @ n1 @ [c1] @ '')'' @ v)
        = re_sub_tag True ''h'' [] u @ re_sub_tag True ''h'' [] v"
      using assms(3,4) h(1) nd(1) by (intro strip_tag) auto
    have x2: "re_sub_tag True ''h'' [] (u @ '' ('' @ n2 @ [c2] @ '')'' @ v)
        = re_sub_tag True ''h'' [] u @ re_sub_tag True ''h'' [] v"
      using assms(5,6) h(2) nd(2) by (intro strip_tag) auto
    show ?thesis
      unfolding is_same_desc_x_def get_desc_x_def assms(1,2) by (simp only: bnd_simps x1 x2) simp
  qed
  from m x show ?thesis by blast
qed

theorem same_activity_under_tag_rewriting_witness:
  "is_same_desc_m [(''DESCRIPTION'', S ''task (2h) done'')] [(''DESCRIPTION'', S ''task (13d) done'')] = Inr True"
proof -
  have a: "od_get_str DESC [(''DESCRIPTION'', S ''task (2h) done'')]
         = Inr (''task'' @ '' ('' @ ''2'' @ [CHR ''h''] @ '')'' @ '' done'')"
    by (simp add: od_get_str_def DESC_def)
  have b: "od_get_str DESC [(''DESCRIPTION'', S ''task (13d) done'')]
         = Inr (''task'' @ '' ('' @ ''13'' @ [CHR ''d''] @ '')'' @ '' done'')"
    by (simp add: od_get_str_def DESC_def)
  have c: "''2'' \<noteq> []" "\<forall>c \<in> set ''2''. is_digit c" "''13'' \<noteq> []" "\<forall>c \<in> set ''13''. is_digit c"
    by (simp_all add: is_digit_def)
  have d: "CHR ''h'' = CHR ''h'' \<or> CHR ''h'' = CHR ''d''" "CHR ''d'' = CHR ''h'' \<or> CHR ''d'' = CHR ''d''"
    by simp_all
  from same_activity_under_tag_rewriting[OF a b c(1) c(2) c(3) c(4) d(1) d(2)] show ?thesis by simp
qed

theorem same_activity_under_tag_rewriting_counterexample:
  "is_same_desc_x [(''DESCRIPTION'', S ''task (2d)'')] [(''DESCRIPTION'', S ''task (3d)'')] = Inr False
   \<and> is_same_desc_m [(''DESCRIPTION'', S ''task (2d)'')] [(''DESCRIPTION'', S ''task (3d)'')] = Inr True"
  by code_simp

section \<open>The terminator-last invariant\<close>

lemma od_in_iff: "od_in k ev = (k \<in> fst ` set ev)"
  by (simp add: od_in_def map_of_eq_None_iff)

lemma od_set_last:
  "terminator_last ev \<Longrightarrow> od_in k ev \<Longrightarrow> terminator_last (od_set k v ev)"
  by (cases ev rule: rev_cases) (auto simp add: terminator_last_def od_set_def)

lemma od_pop_last:
  "terminator_last ev \<Longrightarrow> k \<noteq> END \<Longrightarrow> terminator_last (od_pop k ev)"
  by (cases ev rule: rev_cases) (auto simp add: terminator_last_def od_pop_def)

lemma move_to_end_last: "move_to_end END ev = Inr ev' \<Longrightarrow> terminator_last ev'"
  by (auto simp add: move_to_end_def terminator_last_def split: option.splits)

lemma add_extra_last: "add_extra ev d x n = Inr ev' \<Longrightarrow> terminator_last ev'"
  by (auto simp add: add_extra_def Let_def bnd_def split: sum.splits fval.splits dest: move_to_end_last)

lemma od_get_str_in: "od_get_str k ev = Inr v \<Longrightarrow> od_in k ev"
  by (auto simp add: od_get_str_def od_in_def split: option.splits)

lemma merge_extra_last:
  assumes "terminator_last ev" "merge_extra ev = Inr ev'"
  shows "terminator_last ev'"
proof (cases "od_in EXTRA ev")
  case False
  with assms show ?thesis by (simp add: merge_extra_def)
next
  case True
  with assms(2) obtain d x where d: "od_get_str DESC ev = Inr d"
    and e: "ev' = od_pop EXTRA (od_set DESC (S (d @ '': '' @ str_fval x)) ev)"
    by (auto simp add: merge_extra_def bnd_def split: sum.splits)
  have "EXTRA \<noteq> END" by (simp add: EXTRA_def END_def)
  then show ?thesis unfolding e
    by (intro od_pop_last od_set_last assms(1) od_get_str_in[OF d])
qed

lemma serialized_x_last:
  assumes "terminator_last ev" "serialized_x ev = Inr ev'"
  shows "terminator_last ev'"
proof -
  from assms(2) obtain ev1 where m: "merge_extra ev = Inr ev1"
    by (auto simp add: serialized_x_def bnd_def split: sum.splits)
  have t1: "terminator_last ev1" using assms(1) m by (rule merge_extra_last)
  show ?thesis
    using assms(2) m t1
    by (auto simp add: serialized_x_def bnd_def split: sum.splits if_splits dest: move_to_end_last)
qed

lemma print_dict_m_log:
  assumes "terminator_last ev" "print_dict_m (Some ev) = Inr (ev', ls, lg)"
  shows "terminator_last ev' \<and> lg = []"
proof -
  from assms(2) obtain ev1 where m: "serialized_m ev = Inr ev1"
    by (auto simp add: print_dict_m_def bnd_def split: sum.splits)
  have "terminator_last ev1" using assms(1) m unfolding serialized_m_def by (rule merge_extra_last)
  then show ?thesis using assms(2) m
    by (auto simp add: print_dict_m_def bnd_def terminator_last_def split: sum.splits if_splits)
qed

lemma print_dict_x_log:
  assumes "terminator_last ev" "print_dict_x (Some ev) = Inr (ev', ls, lg)"
  shows "terminator_last ev' \<and> lg = []"
proof -
  from assms(2) obtain ev1 where m: "serialized_x ev = Inr ev1"
    by (auto simp add: print_dict_x_def bnd_def split: sum.splits)
  have "terminator_last ev1" using assms(1) m by (rule serialized_x_last)
  then show ?thesis using assms(2) m
    by (auto simp add: print_dict_x_def bnd_def terminator_last_def split: sum.splits if_splits)
qed

lemma od_set_keys:
  "map fst (od_set k v ev) = (if od_in k ev then map fst ev else map fst ev @ [k])"
proof -
  have "map fst (map (\<lambda>(k', v'). if k' = k then (k', v) else (k', v')) ev) = map fst ev"
    by (induction ev) auto
  then show ?thesis by (simp add: od_set_def)
qed

lemma od_in_keys: "od_in k ev = (k \<in> set (map fst ev))"
  by (simp add: od_in_iff)

lemma od_in_od_set: "od_in k (od_set k' v ev) = (k = k' \<or> od_in k ev)"
  unfolding od_in_keys[of k "od_set k' v ev"] od_set_keys
  by (auto simp add: od_in_keys)

lemma od_set_new_last: "\<not> od_in END ev \<Longrightarrow> terminator_last (od_set END v ev)"
  by (simp add: od_set_def terminator_last_def)

lemma create_event_m_inv:
  assumes "case prev of None \<Rightarrow> True | Some q \<Rightarrow> terminator_last q"
    and "create_event_m prev ne = Inr (p, ls, lg)"
  shows "p = ne \<and> lg = []"
proof (cases "truthy prev")
  case False
  with assms(2) show ?thesis by (simp add: create_event_m_def)
next
  case True
  then obtain q where q: "prev = Some q" by (cases prev) (auto simp add: truthy_def)
  with assms(1) have t: "terminator_last q" by simp
  from assms(2) True q obtain q' ls' lg' where pd: "print_dict_m (Some q) = Inr (q', ls', lg')"
    and e: "p = ne" "lg = lg'"
    by (auto simp add: create_event_m_def bnd_def split: sum.splits)
  from print_dict_m_log[OF t pd] e show ?thesis by simp
qed

lemma create_event_x_inv:
  assumes "case prev of None \<Rightarrow> True | Some q \<Rightarrow> terminator_last q"
    and "create_event_x prev ne = Inr (p, ls, lg)"
  shows "p = ne \<and> lg = []"
proof (cases "truthy prev")
  case False
  with assms(2) show ?thesis by (simp add: create_event_x_def)
next
  case True
  then obtain q where q: "prev = Some q" by (cases prev) (auto simp add: truthy_def)
  with assms(1) have t: "terminator_last q" by simp
  from assms(2) True q obtain q' ls' lg' where pd: "print_dict_x (Some q) = Inr (q', ls', lg')"
    and e: "p = ne" "lg = lg'"
    by (auto simp add: create_event_x_def bnd_def split: sum.splits)
  from print_dict_x_log[OF t pd] e show ?thesis by simp
qed

lemma add_time_m_last: "add_time_m a e = Inr p \<Longrightarrow> terminator_last p"
  by (auto simp add: add_time_m_def bnd_def split: sum.splits prod.splits dest: add_extra_last)

lemma merge_event_m_last: "merge_event_m a e = Inr p \<Longrightarrow> terminator_last p"
  by (auto simp add: merge_event_m_def bnd_def split: sum.splits prod.splits dest: add_extra_last)

lemma add_time_x_last: "add_time_x a e = Inr p \<Longrightarrow> terminator_last p"
  by (auto simp add: add_time_x_def bnd_def split: sum.splits prod.splits dest: add_extra_last)

lemma merge_event_x_last: "merge_event_x a e = Inr p \<Longrightarrow> terminator_last p"
  by (auto simp add: merge_event_x_def bnd_def split: sum.splits prod.splits dest: add_extra_last)

lemma consolidate_m_inv:
  assumes pr: "case prev of None \<Rightarrow> True | Some q \<Rightarrow> terminator_last q"
    and ne: "terminator_last ne"
    and co: "consolidate_m prev ne = Inr (p, ls, lg)"
  shows "terminator_last p \<and> lg = []"
proof -
  have c: "terminator_last p \<and> lg = []" if "create_event_m prev ne = Inr (p, ls, lg)"
    using create_event_m_inv[OF pr that] ne by simp
  show ?thesis
    using co c
    by (auto simp add: consolidate_m_def bnd_def
        split: option.splits if_splits sum.splits
        dest: add_time_m_last merge_event_m_last)
qed

lemma consolidate_x_inv:
  assumes pr: "case prev of None \<Rightarrow> True | Some q \<Rightarrow> terminator_last q"
    and ne: "terminator_last ne"
    and co: "consolidate_x prev ne = Inr (p, ls, lg)"
  shows "terminator_last p \<and> lg = []"
proof -
  have c: "terminator_last p \<and> lg = []" if "create_event_x prev ne = Inr (p, ls, lg)"
    using create_event_x_inv[OF pr that] ne by simp
  show ?thesis
    using co c
    by (auto simp add: consolidate_x_def bnd_def
        split: option.splits if_splits sum.splits
        dest: add_time_x_last merge_event_x_last)
qed

lemma second_pass_step_inv:
  assumes H0: "\<And>r. pd None \<noteq> Inr r"
    and H1: "\<And>ev ev' ls lg. terminator_last ev \<Longrightarrow> pd (Some ev) = Inr (ev', ls, lg) \<Longrightarrow>
               terminator_last ev' \<and> lg = []"
    and H2: "\<And>prev ne p ls lg. (case prev of None \<Rightarrow> True | Some q \<Rightarrow> terminator_last q) \<Longrightarrow>
               terminator_last ne \<Longrightarrow> co prev ne = Inr (p, ls, lg) \<Longrightarrow> terminator_last p \<and> lg = []"
    and inv: "pass2_inv st"
  shows "case second_pass_step pd co st l of
           Next st' \<Rightarrow> pass2_inv st'
         | Break st' \<Rightarrow> ErrEndNotAtEnd \<notin> set (stdout st')
         | Raise e st' \<Rightarrow> ErrEndNotAtEnd \<notin> set (stdout st')"
proof (cases "split_colon (rstrip l)")
  case None
  then show ?thesis using inv by (simp add: second_pass_step_def pass2_inv_def)
next
  case (Some kv)
  obtain key v where kv: "kv = (key, v)" by (cases kv)
  have pr: "case prev_event st of None \<Rightarrow> True | Some q \<Rightarrow> terminator_last q"
    and lg0: "ErrEndNotAtEnd \<notin> set (stdout st)"
    using inv by (simp_all add: pass2_inv_def)
  show ?thesis
  proof (cases "\<not> in_event st \<and> rstrip l \<noteq> ''BEGIN:VEVENT''")
    case out: True
    show ?thesis
    proof (cases "rstrip l = ''END:VCALENDAR''")
      case False
      then show ?thesis using Some kv out inv
        by (simp add: second_pass_step_def pass2_inv_def)
    next
      case True
      show ?thesis
      proof (cases "pd (prev_event st)")
        case (Inl e)
        then show ?thesis using Some kv out True lg0
          by (simp add: second_pass_step_def)
      next
        case (Inr r)
        obtain ev' ls lg where r: "r = (ev', ls, lg)" by (cases r)
        from Inr H0 obtain ev where ev: "prev_event st = Some ev"
          by (cases "prev_event st") auto
        with pr have "terminator_last ev" by simp
        from H1[OF this] Inr r ev have "terminator_last ev' \<and> lg = []" by simp
        then show ?thesis using Some kv out True Inr r inv
          by (simp add: second_pass_step_def pass2_inv_def)
      qed
    qed
  next
    case inn: False
    define st1 where "st1 = (if \<not> in_event st then st\<lparr>in_event := True, new_event := Some []\<rparr> else st)"
    have "\<exists>ne. new_event st1 = Some ne \<and> \<not> od_in END ne"
      using inv by (auto simp add: st1_def pass2_inv_def od_in_def split: option.splits)
    then obtain ne where ne: "new_event st1 = Some ne" "\<not> od_in END ne" by blast
    have st1: "prev_event st1 = prev_event st" "stdout st1 = stdout st" "in_event st1"
      by (simp_all add: st1_def)
    have step: "second_pass_step pd co st l =
       (let ne' = od_set key (S v) ne in
          if key = END then
            (if v = ''VEVENT'' then
               (case co (prev_event st1) ne' of
                  Inl e \<Rightarrow> Raise e (st1\<lparr>in_event := False, new_event := Some ne'\<rparr>)
                | Inr (p, ls, lg) \<Rightarrow>
                    Next (st1\<lparr>in_event := False, new_event := None, prev_event := Some p,
                                fp_out := fp_out st1 @ ls, stdout := stdout st1 @ lg\<rparr>))
             else Break (st1\<lparr>new_event := Some ne', stdout := stdout st1 @ [ErrLine (rstrip l)]\<rparr>))
          else Next (st1\<lparr>new_event := Some ne'\<rparr>))"
    proof (cases "in_event st")
      case True
      then have e: "st1 = st" by (simp add: st1_def)
      from True ne(1) Some kv show ?thesis unfolding e
        by (simp add: second_pass_step_def Let_def)
    next
      case False
      with inn have b: "rstrip l = ''BEGIN:VEVENT''" by simp
      from False have s1: "st1 = st\<lparr>in_event := True, new_event := Some []\<rparr>" by (simp add: st1_def)
      with ne(1) have n: "ne = []" by simp
      from False b Some kv show ?thesis unfolding s1 n
        by (simp add: second_pass_step_def Let_def)
    qed
    show ?thesis
    proof (cases "key = END")
      case False
      then have "\<not> od_in END (od_set key (S v) ne)" using ne(2) by (simp add: od_in_od_set)
      then show ?thesis using False st1 pr lg0 unfolding step
        by (simp add: pass2_inv_def Let_def)
    next
      case kE: True
      have tl: "terminator_last (od_set END (S v) ne)" using ne(2) by (rule od_set_new_last)
      show ?thesis
      proof (cases "v = ''VEVENT''")
        case False
        then show ?thesis using kE st1 lg0 unfolding step by (simp add: Let_def)
      next
        case True
        show ?thesis
        proof (cases "co (prev_event st1) (od_set END (S v) ne)")
          case (Inl e)
          then show ?thesis using kE True st1 lg0 unfolding step by (simp add: Let_def)
        next
          case (Inr r)
          obtain p ls lg where r: "r = (p, ls, lg)" by (cases r)
          from H2[OF _ tl, of "prev_event st1" p ls lg] pr st1(1) Inr r
          have "terminator_last p \<and> lg = []" by simp
          then show ?thesis using kE True st1 lg0 Inr r unfolding step
            by (simp add: Let_def pass2_inv_def)
        qed
      qed
    qed
  qed
qed

lemma run_loop_inv:
  assumes step: "\<And>st l. I st \<Longrightarrow> (case f st l of Next st' \<Rightarrow> I st' | Break st' \<Rightarrow> Q st' | Raise e st' \<Rightarrow> Q st')"
    and IQ: "\<And>st. I st \<Longrightarrow> Q st"
    and "I st"
  shows "Q (flow_state (run_loop f st ls))"
  using assms(3)
proof (induction ls arbitrary: st)
  case Nil
  then show ?case by (simp add: IQ)
next
  case (Cons l ls)
  from step[OF Cons.prems, of l] Cons.IH show ?case
    by (cases "f st l") simp_all
qed

lemma od_append_str_last:
  "terminator_last ev \<Longrightarrow> od_append_str k x ev = Inr ev' \<Longrightarrow> terminator_last ev'"
  by (auto simp add: od_append_str_def bnd_def split: sum.splits intro: od_set_last od_get_str_in)

lemma replace_day_key_last:
  "terminator_last ev \<Longrightarrow> replace_day_key ev n k = Inr ev' \<Longrightarrow> terminator_last ev'"
  by (auto simp add: replace_day_key_def bnd_def split: sum.splits intro: od_set_last od_get_str_in)

lemma replaced_time_key_last:
  "terminator_last ev \<Longrightarrow> replaced_time_key ev n k = Inr ev' \<Longrightarrow> terminator_last ev'"
  by (auto simp add: replaced_time_key_def bnd_def split: sum.splits intro: od_set_last od_get_str_in)

lemma pop_exact_last:
  assumes "terminator_last ev" "pop_exact zone k ev = Inr (x, ev')" "k \<noteq> END"
  shows "terminator_last ev'"
  using assms
  by (auto simp add: pop_exact_def bnd_def split: sum.splits if_splits intro: od_pop_last)

lemma bnd_InrD: "bnd r f = Inr y \<Longrightarrow> \<exists>x. r = Inr x \<and> f x = Inr y"
  by (cases r) (simp_all add: bnd_def)

lemma bnd_assoc: "bnd (bnd r f) g = bnd r (\<lambda>x. bnd (f x) g)"
  by (cases r) (simp_all add: bnd_def)

lemma bnd_InrE:
  assumes "bnd r f = Inr y"
  obtains x where "r = Inr x" "f x = Inr y"
  using assms by (cases r) (simp_all add: bnd_def)

lemma clean_exact_last:
  assumes t: "terminator_last ev" and c: "clean_exact a b ev = Inr (ev', lg)"
  shows "terminator_last ev'"
proof -
  obtain days hours lg0 where r: "round_work_day (delta_days a b) (delta_hours a b) = (days, hours, lg0)"
    by (cases "round_work_day (delta_days a b) (delta_hours a b)") auto
  show ?thesis
  proof (cases "days > 0")
    case True
    show ?thesis
    proof (cases "hours > 0")
      case h: True
      from c have "bnd (od_append_str SUMMARY ''?'' ev) (\<lambda>e1.
              bnd (od_append_str DESC ('' hours: '' @ py_str hours) e1) (\<lambda>e2.
                bnd (replace_day_key e2 (days + 1) SUMMARY) (\<lambda>e4.
                  bnd (replace_day_key e4 (days + 1) DESC) (\<lambda>e5.
                    Inr (e5, lg0 @ [WarnOneDayOrMore days hours]))))) = Inr (ev', lg)"
        by (simp add: clean_exact_def r True h bnd_assoc)
      then obtain e1 where a1: "od_append_str SUMMARY ''?'' ev = Inr e1"
        and c1: "bnd (od_append_str DESC ('' hours: '' @ py_str hours) e1) (\<lambda>e2.
                bnd (replace_day_key e2 (days + 1) SUMMARY) (\<lambda>e4.
                  bnd (replace_day_key e4 (days + 1) DESC) (\<lambda>e5.
                    Inr (e5, lg0 @ [WarnOneDayOrMore days hours])))) = Inr (ev', lg)"
        by (rule bnd_InrE)
      from c1 obtain e2 where a2: "od_append_str DESC ('' hours: '' @ py_str hours) e1 = Inr e2"
        and c2: "bnd (replace_day_key e2 (days + 1) SUMMARY) (\<lambda>e4.
                  bnd (replace_day_key e4 (days + 1) DESC) (\<lambda>e5.
                    Inr (e5, lg0 @ [WarnOneDayOrMore days hours]))) = Inr (ev', lg)"
        by (rule bnd_InrE)
      from c2 obtain e4 where a3: "replace_day_key e2 (days + 1) SUMMARY = Inr e4"
        and c3: "bnd (replace_day_key e4 (days + 1) DESC) (\<lambda>e5.
                    Inr (e5, lg0 @ [WarnOneDayOrMore days hours])) = Inr (ev', lg)"
        by (rule bnd_InrE)
      from c3 obtain e5 where a4: "replace_day_key e4 (days + 1) DESC = Inr e5"
        and "Inr (e5, lg0 @ [WarnOneDayOrMore days hours]) = (Inr (ev', lg) :: (event \<times> log_msg list) res)"
        by (rule bnd_InrE)
      then have a5: "e5 = ev'" by simp
      have "terminator_last e1" using t a1 by (rule od_append_str_last)
      then have "terminator_last e2" using a2 by (rule od_append_str_last)
      then have "terminator_last e4" using a3 by (rule replace_day_key_last)
      then have "terminator_last e5" using a4 by (rule replace_day_key_last)
      then show ?thesis by (simp add: a5)
    next
      case h: False
      from c have "bnd (replace_day_key ev days SUMMARY) (\<lambda>e4.
                  bnd (replace_day_key e4 days DESC) (\<lambda>e5. Inr (e5, lg0))) = Inr (ev', lg)"
        by (simp add: clean_exact_def r True h bnd_assoc)
      then obtain e4 where a3: "replace_day_key ev days SUMMARY = Inr e4"
        and c3: "bnd (replace_day_key e4 days DESC) (\<lambda>e5. Inr (e5, lg0)) = Inr (ev', lg)"
        by (rule bnd_InrE)
      from c3 obtain e5 where a4: "replace_day_key e4 days DESC = Inr e5"
        and "Inr (e5, lg0) = (Inr (ev', lg) :: (event \<times> log_msg list) res)"
        by (rule bnd_InrE)
      then have a5: "e5 = ev'" by simp
      have "terminator_last e4" using t a3 by (rule replace_day_key_last)
      then have "terminator_last e5" using a4 by (rule replace_day_key_last)
      then show ?thesis by (simp add: a5)
    qed
  next
    case False
    define pre where "pre = (if hours \<le> 4 then
                   bnd (od_get_str SUMMARY ev) (\<lambda>v.
                     Inr (od_set SUMMARY
                            (S ((if local_hour a < 12 then ''AM'' else ''PM'') @ '' '' @ v))
                            ev))
                 else Inr ev)"
    from c have "bnd pre (\<lambda>e1.
              bnd (replaced_time_key e1 hours SUMMARY) (\<lambda>e2.
                bnd (replaced_time_key e2 hours DESC) (\<lambda>e3. Inr (e3, lg0)))) = Inr (ev', lg)"
      by (simp add: clean_exact_def r False pre_def bnd_assoc)
    then obtain e1 where p: "pre = Inr e1"
      and c1: "bnd (replaced_time_key e1 hours SUMMARY) (\<lambda>e2.
                bnd (replaced_time_key e2 hours DESC) (\<lambda>e3. Inr (e3, lg0))) = Inr (ev', lg)"
      by (rule bnd_InrE)
    from c1 obtain e2 where k1: "replaced_time_key e1 hours SUMMARY = Inr e2"
      and c2: "bnd (replaced_time_key e2 hours DESC) (\<lambda>e3. Inr (e3, lg0)) = Inr (ev', lg)"
      by (rule bnd_InrE)
    from c2 obtain e3 where k2: "replaced_time_key e2 hours DESC = Inr e3"
      and "Inr (e3, lg0) = (Inr (ev', lg) :: (event \<times> log_msg list) res)"
      by (rule bnd_InrE)
    then have k3: "e3 = ev'" by simp
    have "terminator_last e1"
    proof (cases "hours \<le> 4")
      case True
      with p obtain v where "od_get_str SUMMARY ev = Inr v"
        and "e1 = od_set SUMMARY (S ((if local_hour a < 12 then ''AM'' else ''PM'') @ '' '' @ v)) ev"
        by (auto simp add: pre_def dest!: bnd_InrD)
      with t show ?thesis by (auto intro: od_set_last od_get_str_in)
    next
      case False
      with p t show ?thesis by (simp add: pre_def)
    qed
    then have "terminator_last e2" using k1 by (rule replaced_time_key_last)
    then have "terminator_last e3" using k2 by (rule replaced_time_key_last)
    then show ?thesis by (simp add: k3)
  qed
qed

lemma clean_event_last:
  assumes t: "terminator_last ev \<or> \<not> od_in DATE_END ev"
    and c: "clean_event zone ev = Inr (ev', lg)"
  shows "terminator_last ev'"
proof -
  define d1 where "d1 = (if \<not> od_in DATE_END ev then
            bnd (od_get_str DATE_START ev) (\<lambda>s.
              bnd (date_next_day_str s) (\<lambda>e. move_to_end END (od_set DATE_END (S e) ev)))
          else Inr ev)"
  define fin where "fin = (\<lambda>a b ev3. case (a, b) of
             (Some st, Some en) \<Rightarrow> clean_exact st en ev3
           | _ \<Rightarrow>
               bnd (od_get_str SUMMARY ev3) (\<lambda>s.
                 if get_hours s \<ge> 7 then bnd (replace_day_key ev3 1 SUMMARY) (\<lambda>e. Inr (e, []))
                 else Inr (ev3, [])))"
  from c have "bnd d1 (\<lambda>ev1.
       bnd (pop_exact zone ORIG_DATE_START ev1) (\<lambda>(exact_start, ev2).
         bnd (pop_exact zone ORIG_DATE_END ev2) (\<lambda>(exact_end, ev3).
           fin exact_start exact_end ev3))) = Inr (ev', lg)"
    by (simp add: clean_event_def d1_def fin_def)
  then obtain ev1 where s1: "d1 = Inr ev1"
    and c1: "bnd (pop_exact zone ORIG_DATE_START ev1) (\<lambda>(exact_start, ev2).
         bnd (pop_exact zone ORIG_DATE_END ev2) (\<lambda>(exact_end, ev3).
           fin exact_start exact_end ev3)) = Inr (ev', lg)"
    by (rule bnd_InrE)
  from c1 obtain x2 where s2': "pop_exact zone ORIG_DATE_START ev1 = Inr x2"
    and c2': "(case x2 of (exact_start, ev2) \<Rightarrow>
         bnd (pop_exact zone ORIG_DATE_END ev2) (\<lambda>(exact_end, ev3).
           fin exact_start exact_end ev3)) = Inr (ev', lg)"
    by (rule bnd_InrE)
  obtain a ev2 where x2: "x2 = (a, ev2)" by (cases x2)
  from s2' x2 have s2: "pop_exact zone ORIG_DATE_START ev1 = Inr (a, ev2)" by simp
  from c2' x2 have "bnd (pop_exact zone ORIG_DATE_END ev2) (\<lambda>(exact_end, ev3).
           fin a exact_end ev3) = Inr (ev', lg)"
    by simp
  then obtain x3 where s3': "pop_exact zone ORIG_DATE_END ev2 = Inr x3"
    and c3': "(case x3 of (exact_end, ev3) \<Rightarrow> fin a exact_end ev3) = Inr (ev', lg)"
    by (rule bnd_InrE)
  obtain b ev3 where x3: "x3 = (b, ev3)" by (cases x3)
  from s3' x3 have s3: "pop_exact zone ORIG_DATE_END ev2 = Inr (b, ev3)" by simp
  from c3' x3 have s4: "fin a b ev3 = Inr (ev', lg)" by simp
  have t1: "terminator_last ev1"
  proof (cases "od_in DATE_END ev")
    case True
    with s1 t show ?thesis by (simp add: d1_def)
  next
    case False
    with s1 have "bnd (od_get_str DATE_START ev) (\<lambda>s.
              bnd (date_next_day_str s) (\<lambda>e. move_to_end END (od_set DATE_END (S e) ev))) = Inr ev1"
      by (simp add: d1_def)
    then obtain s where "bnd (date_next_day_str s) (\<lambda>e. move_to_end END (od_set DATE_END (S e) ev)) = Inr ev1"
      by (rule bnd_InrE)
    then obtain e where "move_to_end END (od_set DATE_END (S e) ev) = Inr ev1"
      by (rule bnd_InrE)
    then show ?thesis by (rule move_to_end_last)
  qed
  have ne: "ORIG_DATE_START \<noteq> END" "ORIG_DATE_END \<noteq> END"
    by (simp_all add: ORIG_DATE_START_def ORIG_DATE_END_def END_def DATE_START_def DATE_END_def)
  have t2: "terminator_last ev2" using t1 s2 ne(1) by (rule pop_exact_last)
  have t3: "terminator_last ev3" using t2 s3 ne(2) by (rule pop_exact_last)
  show ?thesis
  proof (cases "a \<noteq> None \<and> b \<noteq> None")
    case True
    then obtain st en where "a = Some st" "b = Some en" by auto
    with s4 have "clean_exact st en ev3 = Inr (ev', lg)" by (simp add: fin_def)
    with t3 show ?thesis by (rule clean_exact_last)
  next
    case False
    with s4 have "bnd (od_get_str SUMMARY ev3) (\<lambda>s.
                 if get_hours s \<ge> 7 then bnd (replace_day_key ev3 1 SUMMARY) (\<lambda>e. Inr (e, []))
                 else Inr (ev3, [])) = Inr (ev', lg)"
      by (cases a; cases b) (simp_all add: fin_def)
    then obtain s where k: "(if get_hours s \<ge> 7 then bnd (replace_day_key ev3 1 SUMMARY) (\<lambda>e. Inr (e, []))
                 else Inr (ev3, [])) = Inr (ev', lg)"
      by (rule bnd_InrE)
    show ?thesis
    proof (cases "get_hours s \<ge> 7")
      case True
      with k have "bnd (replace_day_key ev3 1 SUMMARY) (\<lambda>e. Inr (e, [])) = Inr (ev', lg)" by simp
      then obtain e where "replace_day_key ev3 1 SUMMARY = Inr e"
        and "Inr (e, []) = (Inr (ev', lg) :: (event \<times> log_msg list) res)"
        by (rule bnd_InrE)
      with t3 show ?thesis by (auto dest: replace_day_key_last)
    next
      case False
      with k t3 show ?thesis by simp
    qed
  qed
qed

text \<open>
  C5. Whenever \<open>print_dict\<close> serializes an event to the output, \<^verbatim>\<open>END\<close> is the last field
  of the event: over any input lines, the second loop of neither script ever prints the
  message of the check \<^verbatim>\<open>key != END\<close>. Every operation that adds a field after an event
  was created puts the terminator back at the end: \<open>add_extra\<close> (the audit list), the
  flattening and the implicit end date of \<open>print_dict\<close>, and the implicit end date of
  \<open>clean_event\<close>.
\<close>

theorem terminator_stays_last:
  "ErrEndNotAtEnd \<notin> set (stdout (flow_state (run_loop second_pass_step_m pass2_init lines)))
   \<and> ErrEndNotAtEnd \<notin> set (stdout (flow_state (run_loop second_pass_step_x pass2_init lines)))
   \<and> (add_extra e1 d x n = Inr e1' \<longrightarrow> terminator_last e1')
   \<and> (terminator_last e2 \<and> serialized_m e2 = Inr e2' \<longrightarrow> terminator_last e2')
   \<and> (terminator_last e3 \<and> serialized_x e3 = Inr e3' \<longrightarrow> terminator_last e3')
   \<and> ((terminator_last e4 \<or> \<not> od_in DATE_END e4) \<and> clean_event zone e4 = Inr (e4', lg)
        \<longrightarrow> terminator_last e4')"
proof -
  have i: "pass2_inv pass2_init" by (simp add: pass2_inv_def pass2_init_def)
  have q: "pass2_inv st \<Longrightarrow> ErrEndNotAtEnd \<notin> set (stdout st)" for st
    by (simp add: pass2_inv_def)
  have m: "ErrEndNotAtEnd \<notin> set (stdout (flow_state (run_loop second_pass_step_m pass2_init lines)))"
    unfolding second_pass_step_m_def
  proof (rule run_loop_inv[where I = pass2_inv, OF _ q i])
    fix st l assume "pass2_inv st"
    then show "case second_pass_step print_dict_m consolidate_m st l of
                 Next st' \<Rightarrow> pass2_inv st'
               | Break st' \<Rightarrow> ErrEndNotAtEnd \<notin> set (stdout st')
               | Raise e st' \<Rightarrow> ErrEndNotAtEnd \<notin> set (stdout st')"
      by (intro second_pass_step_inv print_dict_m_log consolidate_m_inv)
         (simp_all add: print_dict_m_def)
  qed
  have x: "ErrEndNotAtEnd \<notin> set (stdout (flow_state (run_loop second_pass_step_x pass2_init lines)))"
    unfolding second_pass_step_x_def
  proof (rule run_loop_inv[where I = pass2_inv, OF _ q i])
    fix st l assume "pass2_inv st"
    then show "case second_pass_step print_dict_x consolidate_x st l of
                 Next st' \<Rightarrow> pass2_inv st'
               | Break st' \<Rightarrow> ErrEndNotAtEnd \<notin> set (stdout st')
               | Raise e st' \<Rightarrow> ErrEndNotAtEnd \<notin> set (stdout st')"
      by (intro second_pass_step_inv print_dict_x_log consolidate_x_inv)
         (simp_all add: print_dict_x_def)
  qed
  show ?thesis
    using m x add_extra_last[of e1 d x n e1'] merge_extra_last[of e2 e2']
      serialized_x_last[of e3 e3'] clean_event_last[of e4 zone e4' lg]
    by (auto simp add: serialized_m_def)
qed

lemmas event_eval =
  od_in_def od_set_def od_pop_def od_get_def od_get_str_def move_to_end_def od_append_str_def
  DATE_START_def DATE_END_def ORIG_DATE_START_def ORIG_DATE_END_def DESC_def SUMMARY_def
  EXTRA_def END_def Let_def

lemmas tag_eval =
  match_tag_def is_digit_def get_hours_def get_days_def get_num_parenthesis_def digits_val_def
  digit_val_def search_AM_PM_def

theorem terminator_stays_last_witness:
  "ErrEndNotAtEnd \<notin> set (stdout (flow_state (run_loop second_pass_step_m pass2_init
       [''BEGIN:VEVENT'', ''SUMMARY:x'', ''END:VEVENT'', ''END:VCALENDAR''])))
   \<and> terminator_last [(''SUMMARY'', S ''x''), (''__EXTRA__'', L [''add time: task [2h]'']), (''END'', S ''VEVENT'')]
   \<and> terminator_last [(''DESCRIPTION'', S ''task: [1]''), (''END'', S ''VEVENT'')]
   \<and> terminator_last [(''DTSTART'', S ''20230103''), (''DTEND'', S ''20230103''), (''END'', S ''VEVENT'')]
   \<and> terminator_last [(''DTSTART'', S ''20230103''), (''SUMMARY'', S ''x''), (''DTEND'', S ''20230104''), (''END'', S ''VEVENT'')]"
proof -
  have a: "add_extra [(''SUMMARY'', S ''x''), (''END'', S ''VEVENT'')] ''add time'' ''task'' ''2h''
      = Inr [(''SUMMARY'', S ''x''), (''__EXTRA__'', L [''add time: task [2h]'']), (''END'', S ''VEVENT'')]"
    by (simp add: add_extra_def event_eval)
  have b: "terminator_last [(''DESCRIPTION'', S ''task''), (''__EXTRA__'', S ''[1]''), (''END'', S ''VEVENT'')]
      \<and> serialized_m [(''DESCRIPTION'', S ''task''), (''__EXTRA__'', S ''[1]''), (''END'', S ''VEVENT'')]
        = Inr [(''DESCRIPTION'', S ''task: [1]''), (''END'', S ''VEVENT'')]"
    by (simp add: serialized_m_def merge_extra_def terminator_last_def str_fval_def event_eval)
  have c: "terminator_last [(''DTSTART'', S ''20230103''), (''END'', S ''VEVENT'')]
      \<and> serialized_x [(''DTSTART'', S ''20230103''), (''END'', S ''VEVENT'')]
        = Inr [(''DTSTART'', S ''20230103''), (''DTEND'', S ''20230103''), (''END'', S ''VEVENT'')]"
    by (simp add: serialized_x_def merge_extra_def terminator_last_def event_eval)
  have d: "(terminator_last [(''DTSTART'', S ''20230103''), (''SUMMARY'', S ''x''), (''END'', S ''VEVENT'')]
       \<or> \<not> od_in DATE_END [(''DTSTART'', S ''20230103''), (''SUMMARY'', S ''x''), (''END'', S ''VEVENT'')])
      \<and> clean_event (\<lambda>d t. 3600) [(''DTSTART'', S ''20230103''), (''SUMMARY'', S ''x''), (''END'', S ''VEVENT'')]
        = Inr ([(''DTSTART'', S ''20230103''), (''SUMMARY'', S ''x''), (''DTEND'', S ''20230104''), (''END'', S ''VEVENT'')], [])"
    by (simp add: clean_event_def pop_exact_def date_next_day_str_def plus_one_day_def
        terminator_last_def event_eval tag_eval parse_eval date_eval)
  from terminator_stays_last[of
      "[''BEGIN:VEVENT'', ''SUMMARY:x'', ''END:VEVENT'', ''END:VCALENDAR'']"
      "[(''SUMMARY'', S ''x''), (''END'', S ''VEVENT'')]" "''add time''" "''task''" "''2h''"
      "[(''SUMMARY'', S ''x''), (''__EXTRA__'', L [''add time: task [2h]'']), (''END'', S ''VEVENT'')]"
      "[(''DESCRIPTION'', S ''task''), (''__EXTRA__'', S ''[1]''), (''END'', S ''VEVENT'')]"
      "[(''DESCRIPTION'', S ''task: [1]''), (''END'', S ''VEVENT'')]"
      "[(''DTSTART'', S ''20230103''), (''END'', S ''VEVENT'')]"
      "[(''DTSTART'', S ''20230103''), (''DTEND'', S ''20230103''), (''END'', S ''VEVENT'')]"
      "[(''DTSTART'', S ''20230103''), (''SUMMARY'', S ''x''), (''END'', S ''VEVENT'')]"
      "\<lambda>d t. 3600"
      "[(''DTSTART'', S ''20230103''), (''SUMMARY'', S ''x''), (''DTEND'', S ''20230104''), (''END'', S ''VEVENT'')]"
      "[]"] a b c d
  show ?thesis by blast
qed

section \<open>The exclusive end date\<close>

lemma map_of_upd_all:
  "map_of (map (\<lambda>(a, b). if a = k then (a, v) else (a, b)) ev) k'
     = (if k' = k then map_option (\<lambda>_. v) (map_of ev k) else map_of ev k')"
  by (induction ev) auto

lemma map_of_od_set: "map_of (od_set k v ev) k' = (if k' = k then Some v else map_of ev k')"
proof (cases "od_in k ev")
  case True
  then obtain w where "map_of ev k = Some w" by (auto simp add: od_in_def)
  with True show ?thesis by (simp add: od_set_def map_of_upd_all)
next
  case False
  then have "map_of ev k = None" by (simp add: od_in_def)
  with False show ?thesis by (auto simp add: od_set_def map_add_def split: option.splits)
qed

lemma map_of_od_pop: "map_of (od_pop k ev) k' = (if k' = k then None else map_of ev k')"
  by (induction ev) (auto simp add: od_pop_def)



















section \<open>Lines outside event blocks\<close>

lemma first_pass_x_outside:
  assumes "\<not> truthy (p1_event st)" and "\<forall>l \<in> set ls. outside_line l"
  shows "run_loop first_pass_step_x st ls = Next (st\<lparr>p1_out := p1_out st @ map rstrip ls\<rparr>)"
  using assms
proof (induction ls arbitrary: st)
  case Nil
  then show ?case by simp
next
  case (Cons l ls)
  from Cons.prems(2) obtain k v where kv: "split_colon (rstrip l) = Some (k, v)"
    and nb: "rstrip l \<noteq> ''BEGIN:VEVENT''" and ne: "rstrip l \<noteq> ''END:VCALENDAR''"
    by (auto simp add: outside_line_def)
  let ?st1 = "st\<lparr>p1_out := p1_out st @ [rstrip l]\<rparr>"
  have step: "first_pass_step_x st l = Next ?st1"
    using kv nb ne Cons.prems(1) by (simp add: first_pass_step_x_def)
  have "run_loop first_pass_step_x ?st1 ls = Next (?st1\<lparr>p1_out := p1_out ?st1 @ map rstrip ls\<rparr>)"
    using Cons.prems by (intro Cons.IH) simp_all
  then show ?case using step by simp
qed

lemma first_pass_m_outside:
  assumes "\<not> truthy (p1_event st)" and "\<forall>l \<in> set ls. outside_line l"
  shows "run_loop (first_pass_step_m zone) st ls
       = Next (st\<lparr>p1_out := p1_out st @ map rstrip (filter has_value ls)\<rparr>)"
  using assms
proof (induction ls arbitrary: st)
  case Nil
  then show ?case by simp
next
  case (Cons l ls)
  from Cons.prems(2) obtain k v where kv: "split_colon (rstrip l) = Some (k, v)"
    and nb: "rstrip l \<noteq> ''BEGIN:VEVENT''" and ne: "rstrip l \<noteq> ''END:VCALENDAR''"
    by (auto simp add: outside_line_def)
  show ?case
  proof (cases "v = []")
    case True
    then have step: "first_pass_step_m zone st l = Next st" and hv: "\<not> has_value l"
      using kv by (simp_all add: first_pass_step_m_def has_value_def)
    have "run_loop (first_pass_step_m zone) st ls
        = Next (st\<lparr>p1_out := p1_out st @ map rstrip (filter has_value ls)\<rparr>)"
      using Cons.prems by (intro Cons.IH) simp_all
    then show ?thesis using step hv by simp
  next
    case False
    let ?st1 = "st\<lparr>p1_out := p1_out st @ [rstrip l]\<rparr>"
    have step: "first_pass_step_m zone st l = Next ?st1" and hv: "has_value l"
      using kv nb ne False Cons.prems(1) by (simp_all add: first_pass_step_m_def has_value_def)
    have "run_loop (first_pass_step_m zone) ?st1 ls
        = Next (?st1\<lparr>p1_out := p1_out ?st1 @ map rstrip (filter has_value ls)\<rparr>)"
      using Cons.prems by (intro Cons.IH) simp_all
    then show ?thesis using step hv by simp
  qed
qed

lemma second_pass_outside:
  assumes "\<not> in_event st" and "\<forall>l \<in> set ls. outside_line l"
  shows "run_loop (second_pass_step pd co) st ls = Next (st\<lparr>fp_out := fp_out st @ map rstrip ls\<rparr>)"
  using assms
proof (induction ls arbitrary: st)
  case Nil
  then show ?case by simp
next
  case (Cons l ls)
  from Cons.prems(2) obtain k v where kv: "split_colon (rstrip l) = Some (k, v)"
    and nb: "rstrip l \<noteq> ''BEGIN:VEVENT''" and ne: "rstrip l \<noteq> ''END:VCALENDAR''"
    by (auto simp add: outside_line_def)
  let ?st1 = "st\<lparr>fp_out := fp_out st @ [rstrip l]\<rparr>"
  have step: "second_pass_step pd co st l = Next ?st1"
    using kv nb ne Cons.prems(1) by (simp add: second_pass_step_def)
  have "run_loop (second_pass_step pd co) ?st1 ls = Next (?st1\<lparr>fp_out := fp_out ?st1 @ map rstrip ls\<rparr>)"
    using Cons.prems by (intro Cons.IH) simp_all
  then show ?case using step by simp
qed

lemma rstrip_id: "s = [] \<or> \<not> is_space (last s) \<Longrightarrow> rstrip s = s"
  by (cases s rule: rev_cases) (auto simp add: rstrip_def)

lemma rstrip_end_calendar: "rstrip ''END:VCALENDAR'' = ''END:VCALENDAR''"
  by (simp add: rstrip_def is_space_def)

lemma split_end_calendar: "split_colon ''END:VCALENDAR'' = Some (''END'', ''VCALENDAR'')"
  by (simp add: split_colon_def)

text \<open>
  C9 (as amended). Lines outside any event block that hold a colon and are neither
  \<^verbatim>\<open>BEGIN:VEVENT\<close> nor \<^verbatim>\<open>END:VCALENDAR\<close> are written in their order, each without its
  trailing white space (so unchanged when it has none): all of them by both loops of the
  expander variant and by the second loop of the merge variant, and by the first loop of the
  merge variant those whose text after the first colon is not empty, the others being
  dropped. Outside an event block \<^verbatim>\<open>END:VCALENDAR\<close> is written after the report of the
  first loop or after the flush of the accumulator in the second.
\<close>

theorem pass_through_outside_events:
  assumes "\<not> truthy (p1_event st)" and "\<not> in_event st2" and "\<forall>l \<in> set ls. outside_line l"
  shows "run_loop first_pass_step_x st ls = Next (st\<lparr>p1_out := p1_out st @ map rstrip ls\<rparr>)
     \<and> run_loop (first_pass_step_m zone) st ls
         = Next (st\<lparr>p1_out := p1_out st @ map rstrip (filter has_value ls)\<rparr>)
     \<and> run_loop second_pass_step_x st2 ls = Next (st2\<lparr>fp_out := fp_out st2 @ map rstrip ls\<rparr>)
     \<and> run_loop second_pass_step_m st2 ls = Next (st2\<lparr>fp_out := fp_out st2 @ map rstrip ls\<rparr>)
     \<and> first_pass_step_x st ''END:VCALENDAR''
         = (case print_all (p1_owners st) of
              Inl e \<Rightarrow> Raise e st
            | Inr rep \<Rightarrow> Next (st\<lparr>p1_out := p1_out st @ rep @ [''END:VCALENDAR'']\<rparr>))
     \<and> first_pass_step_m zone st ''END:VCALENDAR''
         = (case print_all (p1_owners st) of
              Inl e \<Rightarrow> Raise e st
            | Inr rep \<Rightarrow> Next (st\<lparr>p1_out := p1_out st @ rep @ [''END:VCALENDAR'']\<rparr>))
     \<and> second_pass_step_m st2 ''END:VCALENDAR''
         = (case print_dict_m (prev_event st2) of
              Inl e \<Rightarrow> Raise e st2
            | Inr (ev, out, lg) \<Rightarrow>
                Next (st2\<lparr>prev_event := Some ev, fp_out := fp_out st2 @ out @ [''END:VCALENDAR''],
                          stdout := stdout st2 @ lg\<rparr>))
     \<and> (\<forall>l \<in> set ls. l = [] \<or> \<not> is_space (last l) \<longrightarrow> rstrip l = l)"
proof -
  have a: "run_loop first_pass_step_x st ls = Next (st\<lparr>p1_out := p1_out st @ map rstrip ls\<rparr>)"
    using assms(1) assms(3) by (rule first_pass_x_outside)
  have b: "run_loop (first_pass_step_m zone) st ls
         = Next (st\<lparr>p1_out := p1_out st @ map rstrip (filter has_value ls)\<rparr>)"
    using assms(1) assms(3) by (rule first_pass_m_outside)
  have c: "run_loop second_pass_step_x st2 ls = Next (st2\<lparr>fp_out := fp_out st2 @ map rstrip ls\<rparr>)"
    unfolding second_pass_step_x_def using assms(2) assms(3) by (rule second_pass_outside)
  have d: "run_loop second_pass_step_m st2 ls = Next (st2\<lparr>fp_out := fp_out st2 @ map rstrip ls\<rparr>)"
    unfolding second_pass_step_m_def using assms(2) assms(3) by (rule second_pass_outside)
  have e: "first_pass_step_x st ''END:VCALENDAR''
         = (case print_all (p1_owners st) of
              Inl e \<Rightarrow> Raise e st
            | Inr rep \<Rightarrow> Next (st\<lparr>p1_out := p1_out st @ rep @ [''END:VCALENDAR'']\<rparr>))"
    using assms(1)
    by (simp add: first_pass_step_x_def rstrip_end_calendar split_end_calendar)
  have f: "first_pass_step_m zone st ''END:VCALENDAR''
         = (case print_all (p1_owners st) of
              Inl e \<Rightarrow> Raise e st
            | Inr rep \<Rightarrow> Next (st\<lparr>p1_out := p1_out st @ rep @ [''END:VCALENDAR'']\<rparr>))"
    using assms(1)
    by (simp add: first_pass_step_m_def rstrip_end_calendar split_end_calendar)
  have g: "second_pass_step_m st2 ''END:VCALENDAR''
         = (case print_dict_m (prev_event st2) of
              Inl e \<Rightarrow> Raise e st2
            | Inr (ev, out, lg) \<Rightarrow>
                Next (st2\<lparr>prev_event := Some ev, fp_out := fp_out st2 @ out @ [''END:VCALENDAR''],
                          stdout := stdout st2 @ lg\<rparr>))"
    using assms(2)
    by (simp add: second_pass_step_m_def second_pass_step_def rstrip_end_calendar split_end_calendar)
  have h: "\<forall>l \<in> set ls. l = [] \<or> \<not> is_space (last l) \<longrightarrow> rstrip l = l"
    by (simp add: rstrip_id)
  show ?thesis using a b c d e f g h by simp
qed

theorem pass_through_outside_events_witness:
  "run_loop first_pass_step_x pass1_init [''BEGIN:VCALENDAR'', ''X-WR-CALDESC:'', ''VERSION:2.0  '']
     = Next (pass1_init\<lparr>p1_out := [''BEGIN:VCALENDAR'', ''X-WR-CALDESC:'', ''VERSION:2.0'']\<rparr>)
   \<and> run_loop (first_pass_step_m (\<lambda>d t. 3600)) pass1_init
        [''BEGIN:VCALENDAR'', ''X-WR-CALDESC:'', ''VERSION:2.0  '']
     = Next (pass1_init\<lparr>p1_out := [''BEGIN:VCALENDAR'', ''VERSION:2.0'']\<rparr>)"
proof -
  have r: "rstrip ''BEGIN:VCALENDAR'' = ''BEGIN:VCALENDAR''" "rstrip ''X-WR-CALDESC:'' = ''X-WR-CALDESC:''"
    "rstrip ''VERSION:2.0  '' = ''VERSION:2.0''"
    by (simp_all add: rstrip_def is_space_def)
  have s: "split_colon ''BEGIN:VCALENDAR'' = Some (''BEGIN'', ''VCALENDAR'')"
    "split_colon ''X-WR-CALDESC:'' = Some (''X-WR-CALDESC'', [])"
    "split_colon ''VERSION:2.0'' = Some (''VERSION'', ''2.0'')"
    by (simp_all add: split_colon_def)
  have a: "\<not> truthy (p1_event pass1_init)" by (simp add: pass1_init_def truthy_def)
  have b: "\<not> in_event pass2_init" by (simp add: pass2_init_def)
  have c: "\<forall>l \<in> set [''BEGIN:VCALENDAR'', ''X-WR-CALDESC:'', ''VERSION:2.0  '']. outside_line l"
    by (simp add: outside_line_def r s)
  have hv: "has_value ''BEGIN:VCALENDAR''" "\<not> has_value ''X-WR-CALDESC:''" "has_value ''VERSION:2.0  ''"
    by (simp_all add: has_value_def r s)
  from pass_through_outside_events[OF a b c, of "\<lambda>d t. 3600"] r hv
  show ?thesis by (simp add: pass1_init_def)
qed

theorem pass_through_outside_events_counterexample:
  "first_pass_step_m (\<lambda>d t. 3600) pass1_init ''X-WR-CALDESC:'' = Next pass1_init
   \<and> p1_out pass1_init = []
   \<and> first_pass_step_x pass1_init ''X-COMMENT'' = Raise ValueError pass1_init
   \<and> first_pass_step_m (\<lambda>d t. 3600) pass1_init ''X-COMMENT'' = Raise ValueError pass1_init
   \<and> first_pass_step_x pass1_init ''VERSION:2.0  '' = Next (pass1_init\<lparr>p1_out := [''VERSION:2.0'']\<rparr>)"
proof -
  have r: "rstrip ''X-COMMENT'' = ''X-COMMENT''" "rstrip ''X-WR-CALDESC:'' = ''X-WR-CALDESC:''"
    "rstrip ''VERSION:2.0  '' = ''VERSION:2.0''"
    by (simp_all add: rstrip_def is_space_def)
  have s: "split_colon ''X-COMMENT'' = None"
    "split_colon ''X-WR-CALDESC:'' = Some (''X-WR-CALDESC'', [])"
    "split_colon ''VERSION:2.0'' = Some (''VERSION'', ''2.0'')"
    by (simp_all add: split_colon_def)
  show ?thesis
    by (simp add: first_pass_step_m_def first_pass_step_x_def r s pass1_init_def truthy_def)
qed

section \<open>The whole-day rounding of the normalizer\<close>

lemma od_get_str_od_pop: "k' \<noteq> k \<Longrightarrow> od_get_str k' (od_pop k ev) = od_get_str k' ev"
  by (simp add: od_get_str_def map_of_od_pop)

lemma od_in_od_pop: "k' \<noteq> k \<Longrightarrow> od_in k' (od_pop k ev) = od_in k' ev"
  by (simp add: od_in_def map_of_od_pop)

lemma clean_event_exact:
  assumes de: "od_in DATE_END ev"
    and s: "od_get_str ORIG_DATE_START ev = Inr s" and e: "od_get_str ORIG_DATE_END ev = Inr e"
    and a: "str_to_date_full zone s = Inr a" and b: "str_to_date_full zone e = Inr b"
  shows "clean_event zone ev = clean_exact a b (od_pop ORIG_DATE_END (od_pop ORIG_DATE_START ev))"
proof -
  have n: "ORIG_DATE_END \<noteq> ORIG_DATE_START"
    by (simp add: ORIG_DATE_START_def ORIG_DATE_END_def DATE_START_def DATE_END_def)
  have p1: "pop_exact zone ORIG_DATE_START ev = Inr (Some a, od_pop ORIG_DATE_START ev)"
    using s a od_get_str_in[OF s] by (simp add: pop_exact_def)
  have e': "od_get_str ORIG_DATE_END (od_pop ORIG_DATE_START ev) = Inr e"
    using e n by (simp add: od_get_str_od_pop)
  have p2: "pop_exact zone ORIG_DATE_END (od_pop ORIG_DATE_START ev)
      = Inr (Some b, od_pop ORIG_DATE_END (od_pop ORIG_DATE_START ev))"
    using e' b od_get_str_in[OF e'] by (simp add: pop_exact_def)
  show ?thesis using de by (simp add: clean_event_def p1 p2)
qed

lemma div_3600_range:
  assumes "0 \<le> (x::int)" and "x < 86400"
  shows "0 \<le> x div 3600 \<and> x div 3600 < 24"
proof -
  have a: "0 \<le> x div 3600" using assms(1) by (simp add: pos_imp_zdiv_nonneg_iff)
  have "x \<le> 86399" using assms(2) by simp
  then have "x div 3600 \<le> 86399 div 3600" by (rule zdiv_mono1) simp
  moreover have "(86399::int) div 3600 = 23" by simp
  ultimately have "x div 3600 < 24" by simp
  with a show ?thesis by simp
qed

lemma delta_hours_range: "0 \<le> delta_hours a b \<and> delta_hours a b < 24"
  unfolding delta_hours_def by (rule div_3600_range) simp_all

lemma elapsed_split:
  "delta_seconds a b = delta_days a b * 86400 + delta_hours a b * 3600 + delta_seconds a b mod 3600"
proof -
  define x where "x = delta_seconds a b"
  have m: "x mod 86400 mod 3600 = x mod 3600" by (simp add: mod_mod_cancel)
  have p: "x = x div 86400 * 86400 + x mod 86400" by simp
  have q: "x mod 86400 = x mod 86400 div 3600 * 3600 + x mod 86400 mod 3600" by simp
  have "x = x div 86400 * 86400 + (x mod 86400 div 3600 * 3600 + x mod 3600)"
  proof -
    have g: "\<And>d r h t. x = d + r \<Longrightarrow> r = h + t \<Longrightarrow> x = d + (h + t)" by simp
    from p q[unfolded m] show ?thesis by (rule g)
  qed
  then have "x = x div 86400 * 86400 + x mod 86400 div 3600 * 3600 + x mod 3600"
    by (simp only: add.assoc)
  then show ?thesis by (simp add: x_def delta_days_def delta_hours_def)
qed

lemma round_work_day_spec:
  "round_work_day days hours
     = (fst (whole_day_rounding days hours), snd (whole_day_rounding days hours),
        if 9 < hours then [WarnMoreThan9Hours (days + 1) hours] else [])"
  by (simp add: round_work_day_def whole_day_rounding_def)

lemma clean_exact_band:
  assumes "0 \<le> delta_days a b" and "7 \<le> delta_hours a b" and "delta_hours a b \<le> 9"
  shows "clean_exact a b ev
       = bnd (replace_day_key ev (delta_days a b + 1) SUMMARY) (\<lambda>e4.
           bnd (replace_day_key e4 (delta_days a b + 1) DESC) (\<lambda>e5. Inr (e5, [])))"
  using assms by (simp add: clean_exact_def round_work_day_def)


lemma utc_instant_zone:
  assumes "str_to_date_full zone s = Inr x" and "str_to_date_full zone' s = Inr x'"
  shows "utc_instant x' = utc_instant x"
proof -
  from assms(1) obtain q where q: "strptime_full s = Inr q" unfolding str_to_date_full_def
    by (rule bnd_InrE)
  obtain d h mi sec where q4: "q = (d, h, mi, sec)" by (cases q)
  from assms show ?thesis
    by (auto simp add: str_to_date_full_def q q4 utc_instant_def Let_def split: if_splits)
qed

lemmas full_eval = strptime_full_def re_H_def re_M_def re_S_def MAXORDINAL_def

text \<open>
  C8 (as amended). For an event with exact start and end instants the normalizer takes the
  time elapsed between the two instants, as whole days and a remainder of whole hours below
  24; this is the difference of the instants, whatever the offsets of the two local times.
  From 7 hours on it counts one more whole day; from 7 to 9 hours the hours are set to zero;
  above 9 hours a warning is printed and the hours are kept. \<open>clean_event\<close> on an event
  with both exact instants is \<open>clean_exact\<close> on them, and in the band from 7 to 9 hours the
  day count written into the summary and the description is the elapsed days plus one.
\<close>

theorem whole_day_rounding_rule:
  "delta_seconds a b = utc_instant b - utc_instant a
   \<and> delta_seconds a b
       = delta_days a b * 86400 + delta_hours a b * 3600 + delta_seconds a b mod 3600
   \<and> 0 \<le> delta_hours a b \<and> delta_hours a b < 24
   \<and> round_work_day days hours
       = (fst (whole_day_rounding days hours), snd (whole_day_rounding days hours),
          if 9 < hours then [WarnMoreThan9Hours (days + 1) hours] else [])
   \<and> (str_to_date_full zone s = Inr x \<and> str_to_date_full zone' s = Inr x'
        \<longrightarrow> utc_instant x' = utc_instant x)
   \<and> (od_in DATE_END ev \<and> od_get_str ORIG_DATE_START ev = Inr s \<and> od_get_str ORIG_DATE_END ev = Inr e
        \<and> str_to_date_full zone s = Inr x \<and> str_to_date_full zone e = Inr y
        \<longrightarrow> clean_event zone ev = clean_exact x y (od_pop ORIG_DATE_END (od_pop ORIG_DATE_START ev)))
   \<and> (0 \<le> delta_days a b \<and> 7 \<le> delta_hours a b \<and> delta_hours a b \<le> 9
        \<longrightarrow> clean_exact a b ev'
            = bnd (replace_day_key ev' (delta_days a b + 1) SUMMARY) (\<lambda>e4.
                bnd (replace_day_key e4 (delta_days a b + 1) DESC) (\<lambda>e5. Inr (e5, []))))"
proof -
  have c1: "delta_seconds a b = utc_instant b - utc_instant a"
    by (simp add: delta_seconds_def utc_instant_def algebra_simps)
  have c2: "delta_seconds a b
       = delta_days a b * 86400 + delta_hours a b * 3600 + delta_seconds a b mod 3600"
    by (rule elapsed_split)
  have c3: "0 \<le> delta_hours a b \<and> delta_hours a b < 24" by (rule delta_hours_range)
  have c4: "round_work_day days hours
       = (fst (whole_day_rounding days hours), snd (whole_day_rounding days hours),
          if 9 < hours then [WarnMoreThan9Hours (days + 1) hours] else [])"
    by (rule round_work_day_spec)
  have c5: "utc_instant x' = utc_instant x"
    if "str_to_date_full zone s = Inr x" "str_to_date_full zone' s = Inr x'"
    using that by (rule utc_instant_zone)
  have c6: "clean_event zone ev = clean_exact x y (od_pop ORIG_DATE_END (od_pop ORIG_DATE_START ev))"
    if "od_in DATE_END ev" "od_get_str ORIG_DATE_START ev = Inr s" "od_get_str ORIG_DATE_END ev = Inr e"
      "str_to_date_full zone s = Inr x" "str_to_date_full zone e = Inr y"
    using that by (rule clean_event_exact)
  have c7: "clean_exact a b ev'
            = bnd (replace_day_key ev' (delta_days a b + 1) SUMMARY) (\<lambda>e4.
                bnd (replace_day_key e4 (delta_days a b + 1) DESC) (\<lambda>e5. Inr (e5, [])))"
    if "0 \<le> delta_days a b" "7 \<le> delta_hours a b" "delta_hours a b \<le> 9"
    using that by (rule clean_exact_band)
  show ?thesis using c1 c2 c3 c4 c5 c6 c7 by blast
qed

theorem whole_day_rounding_rule_witness:
  "clean_event (\<lambda>d t. 7200)
     [(''DTSTART'', S ''20210720''), (''DTEND'', S ''20210721''),
      (''ORIGDTSTART'', S ''20210720T060000Z''), (''ORIGDTEND'', S ''20210720T140000Z''),
      (''SUMMARY'', S ''x (8h)''), (''DESCRIPTION'', S ''task (8h)''), (''END'', S ''VEVENT'')]
   = Inr ([(''DTSTART'', S ''20210720''), (''DTEND'', S ''20210721''),
           (''SUMMARY'', S ''x (1d)''), (''DESCRIPTION'', S ''task (1d)''), (''END'', S ''VEVENT'')], [])
   \<and> delta_days \<lparr>utc_day = 737991, utc_sec = 21600, utc_off = 7200\<rparr>
                 \<lparr>utc_day = 737991, utc_sec = 50400, utc_off = 7200\<rparr> = 0
   \<and> delta_hours \<lparr>utc_day = 737991, utc_sec = 21600, utc_off = 7200\<rparr>
                  \<lparr>utc_day = 737991, utc_sec = 50400, utc_off = 7200\<rparr> = 8
   \<and> whole_day_rounding 0 8 = (1, 0)"
proof -
  let ?ev = "[(''DTSTART'', S ''20210720''), (''DTEND'', S ''20210721''),
      (''ORIGDTSTART'', S ''20210720T060000Z''), (''ORIGDTEND'', S ''20210720T140000Z''),
      (''SUMMARY'', S ''x (8h)''), (''DESCRIPTION'', S ''task (8h)''), (''END'', S ''VEVENT'')]"
  let ?ev3 = "[(''DTSTART'', S ''20210720''), (''DTEND'', S ''20210721''),
      (''SUMMARY'', S ''x (8h)''), (''DESCRIPTION'', S ''task (8h)''), (''END'', S ''VEVENT'')]"
  let ?a = "\<lparr>utc_day = 737991, utc_sec = 21600, utc_off = 7200\<rparr>"
  let ?b = "\<lparr>utc_day = 737991, utc_sec = 50400, utc_off = 7200\<rparr>"
  have p1: "strptime_full ''20210720T060000Z'' = Inr (Date 2021 7 20, 6, 0, 0)"
    by (simp add: full_eval parse_eval date_eval)
  have p2: "strptime_full ''20210720T140000Z'' = Inr (Date 2021 7 20, 14, 0, 0)"
    by (simp add: full_eval parse_eval date_eval)
  have a: "str_to_date_full (\<lambda>d t. 7200) ''20210720T060000Z'' = Inr ?a"
    by (simp add: str_to_date_full_def p1 MAXORDINAL_def date_eval)
  have b: "str_to_date_full (\<lambda>d t. 7200) ''20210720T140000Z'' = Inr ?b"
    by (simp add: str_to_date_full_def p2 MAXORDINAL_def date_eval)
  have h1: "od_in DATE_END ?ev" by (simp add: event_eval)
  have h2: "od_get_str ORIG_DATE_START ?ev = Inr ''20210720T060000Z''" by (simp add: event_eval)
  have h3: "od_get_str ORIG_DATE_END ?ev = Inr ''20210720T140000Z''" by (simp add: event_eval)
  have pp: "od_pop ORIG_DATE_END (od_pop ORIG_DATE_START ?ev) = ?ev3" by (simp add: event_eval)
  have dd: "delta_days ?a ?b = 0" by (simp add: delta_days_def delta_seconds_def)
  have dh: "delta_hours ?a ?b = 8" by (simp add: delta_hours_def delta_seconds_def)
  have g: "0 \<le> delta_days ?a ?b \<and> 7 \<le> delta_hours ?a ?b \<and> delta_hours ?a ?b \<le> 9"
    by (simp add: dd dh)
  have r1: "replace_day_key ?ev3 1 SUMMARY
      = Inr [(''DTSTART'', S ''20210720''), (''DTEND'', S ''20210721''),
             (''SUMMARY'', S ''x (1d)''), (''DESCRIPTION'', S ''task (8h)''), (''END'', S ''VEVENT'')]"
    by code_simp
  have r2: "replace_day_key [(''DTSTART'', S ''20210720''), (''DTEND'', S ''20210721''),
             (''SUMMARY'', S ''x (1d)''), (''DESCRIPTION'', S ''task (8h)''), (''END'', S ''VEVENT'')] 1 DESC
      = Inr [(''DTSTART'', S ''20210720''), (''DTEND'', S ''20210721''),
             (''SUMMARY'', S ''x (1d)''), (''DESCRIPTION'', S ''task (1d)''), (''END'', S ''VEVENT'')]"
    by code_simp
  have w: "whole_day_rounding 0 8 = (1, 0)" by (simp add: whole_day_rounding_def)
  from whole_day_rounding_rule[of ?a ?b 0 8 "\<lambda>d t. 7200" "''20210720T060000Z''" ?a
      "\<lambda>d t. 7200" ?a ?ev "''20210720T140000Z''" ?b ?ev3]
    a b h1 h2 h3 pp g dd r1 r2 w dh
  show ?thesis by simp
qed

theorem whole_day_rounding_rule_counterexample:
  "str_to_date_full (\<lambda>d t. if 737877 < d \<or> (d = 737877 \<and> 3600 \<le> t) then 7200 else 3600)
      ''20210328T003000Z'' = Inr \<lparr>utc_day = 737877, utc_sec = 1800, utc_off = 3600\<rparr>
   \<and> str_to_date_full (\<lambda>d t. if 737877 < d \<or> (d = 737877 \<and> 3600 \<le> t) then 7200 else 3600)
      ''20210328T070000Z'' = Inr \<lparr>utc_day = 737877, utc_sec = 25200, utc_off = 7200\<rparr>
   \<and> local_hour \<lparr>utc_day = 737877, utc_sec = 1800, utc_off = 3600\<rparr> = 1
   \<and> local_hour \<lparr>utc_day = 737877, utc_sec = 25200, utc_off = 7200\<rparr> = 9
   \<and> wall_clock_seconds \<lparr>utc_day = 737877, utc_sec = 1800, utc_off = 3600\<rparr>
        \<lparr>utc_day = 737877, utc_sec = 25200, utc_off = 7200\<rparr> = 7 * 3600 + 1800
   \<and> whole_day_rounding 0 7 = (1, 0)
   \<and> delta_days \<lparr>utc_day = 737877, utc_sec = 1800, utc_off = 3600\<rparr>
        \<lparr>utc_day = 737877, utc_sec = 25200, utc_off = 7200\<rparr> = 0
   \<and> delta_hours \<lparr>utc_day = 737877, utc_sec = 1800, utc_off = 3600\<rparr>
        \<lparr>utc_day = 737877, utc_sec = 25200, utc_off = 7200\<rparr> = 6
   \<and> clean_event (\<lambda>d t. if 737877 < d \<or> (d = 737877 \<and> 3600 \<le> t) then 7200 else 3600)
     [(''DTSTART'', S ''20210328''), (''DTEND'', S ''20210329''),
      (''ORIGDTSTART'', S ''20210328T003000Z''), (''ORIGDTEND'', S ''20210328T070000Z''),
      (''SUMMARY'', S ''x (8h)''), (''DESCRIPTION'', S ''task (8h)''), (''END'', S ''VEVENT'')]
   = Inr ([(''DTSTART'', S ''20210328''), (''DTEND'', S ''20210329''),
           (''SUMMARY'', S ''x (6h)''), (''DESCRIPTION'', S ''task (6h)''), (''END'', S ''VEVENT'')], [])"
proof -
  let ?z = "\<lambda>d t. if (737877::int) < d \<or> (d = 737877 \<and> (3600::int) \<le> t) then 7200 else (3600::int)"
  let ?ev = "[(''DTSTART'', S ''20210328''), (''DTEND'', S ''20210329''),
      (''ORIGDTSTART'', S ''20210328T003000Z''), (''ORIGDTEND'', S ''20210328T070000Z''),
      (''SUMMARY'', S ''x (8h)''), (''DESCRIPTION'', S ''task (8h)''), (''END'', S ''VEVENT'')]"
  let ?ev3 = "[(''DTSTART'', S ''20210328''), (''DTEND'', S ''20210329''),
      (''SUMMARY'', S ''x (8h)''), (''DESCRIPTION'', S ''task (8h)''), (''END'', S ''VEVENT'')]"
  let ?a = "\<lparr>utc_day = 737877, utc_sec = 1800, utc_off = 3600\<rparr>"
  let ?b = "\<lparr>utc_day = 737877, utc_sec = 25200, utc_off = 7200\<rparr>"
  have p1: "strptime_full ''20210328T003000Z'' = Inr (Date 2021 3 28, 0, 30, 0)"
    by (simp add: full_eval parse_eval date_eval)
  have p2: "strptime_full ''20210328T070000Z'' = Inr (Date 2021 3 28, 7, 0, 0)"
    by (simp add: full_eval parse_eval date_eval)
  have a: "str_to_date_full ?z ''20210328T003000Z'' = Inr ?a"
    by (simp add: str_to_date_full_def p1 MAXORDINAL_def date_eval)
  have b: "str_to_date_full ?z ''20210328T070000Z'' = Inr ?b"
    by (simp add: str_to_date_full_def p2 MAXORDINAL_def date_eval)
  have l: "local_hour ?a = 1" "local_hour ?b = 9" by (simp_all add: local_hour_def)
  have w: "wall_clock_seconds ?a ?b = 7 * 3600 + 1800"
    by (simp add: wall_clock_seconds_def utc_instant_def)
  have r: "whole_day_rounding 0 7 = (1, 0)" by (simp add: whole_day_rounding_def)
  have dd: "delta_days ?a ?b = 0" by (simp add: delta_days_def delta_seconds_def)
  have dh: "delta_hours ?a ?b = 6" by (simp add: delta_hours_def delta_seconds_def)
  have h1: "od_in DATE_END ?ev" by (simp add: event_eval)
  have h2: "od_get_str ORIG_DATE_START ?ev = Inr ''20210328T003000Z''" by (simp add: event_eval)
  have h3: "od_get_str ORIG_DATE_END ?ev = Inr ''20210328T070000Z''" by (simp add: event_eval)
  have pp: "od_pop ORIG_DATE_END (od_pop ORIG_DATE_START ?ev) = ?ev3" by (simp add: event_eval)
  have r1: "replaced_time_key ?ev3 6 SUMMARY
      = Inr [(''DTSTART'', S ''20210328''), (''DTEND'', S ''20210329''),
             (''SUMMARY'', S ''x (6h)''), (''DESCRIPTION'', S ''task (8h)''), (''END'', S ''VEVENT'')]"
    by code_simp
  have r2: "replaced_time_key [(''DTSTART'', S ''20210328''), (''DTEND'', S ''20210329''),
             (''SUMMARY'', S ''x (6h)''), (''DESCRIPTION'', S ''task (8h)''), (''END'', S ''VEVENT'')] 6 DESC
      = Inr [(''DTSTART'', S ''20210328''), (''DTEND'', S ''20210329''),
             (''SUMMARY'', S ''x (6h)''), (''DESCRIPTION'', S ''task (6h)''), (''END'', S ''VEVENT'')]"
    by code_simp
  have ce: "clean_exact ?a ?b ?ev3
      = Inr ([(''DTSTART'', S ''20210328''), (''DTEND'', S ''20210329''),
           (''SUMMARY'', S ''x (6h)''), (''DESCRIPTION'', S ''task (6h)''), (''END'', S ''VEVENT'')], [])"
    by (simp add: clean_exact_def round_work_day_def dd dh r1 r2)
  have c: "clean_event ?z ?ev = clean_exact ?a ?b (od_pop ORIG_DATE_END (od_pop ORIG_DATE_START ?ev))"
    using h1 h2 h3 a b by (rule clean_event_exact)
  from a b l w r dd dh c pp ce show ?thesis by simp
qed

section \<open>Anomalies of the normalizer\<close>


lemma od_in_od_set_same: "od_in k' ev \<Longrightarrow> od_in k' (od_set k v ev)"
  by (simp add: od_in_def map_of_od_set)

lemma od_set_keys_in: "od_in k ev \<Longrightarrow> map fst (od_set k v ev) = map fst ev"
  by (simp add: od_set_keys)






end
